theory Spec2Isabelle
  imports Complex_Main "HOL-Library.Sublist"
begin

section \<open>Data model of \<^verbatim>\<open>blockchain.py\<close>\<close>

text \<open>
  The class \<^verbatim>\<open>Blockchain\<close> keeps three attributes: the pool
  \<^verbatim>\<open>current_transactions\<close> (a Python list), the list \<^verbatim>\<open>chain\<close> of block
  dictionaries and the set \<^verbatim>\<open>nodes\<close>. A block dictionary has the keys
  \<^verbatim>\<open>index\<close>, \<^verbatim>\<open>timestamp\<close>, \<^verbatim>\<open>transactions\<close>, \<^verbatim>\<open>proof\<close> and
  \<^verbatim>\<open>previous_hash\<close>; a transaction dictionary has \<^verbatim>\<open>sender\<close>,
  \<^verbatim>\<open>recipient\<close> and \<^verbatim>\<open>amount\<close>.

  \<^verbatim>\<open>add_block\<close> stores the pool list object itself under the key
  \<^verbatim>\<open>transactions\<close> and \<^verbatim>\<open>new_transaction\<close> appends to the pool list in
  place, so list objects are kept in a store and named by references. A block
  is therefore polymorphic in what its \<^verbatim>\<open>transactions\<close> entry is: a reference
  (a block held by the object) or the list itself (a block read off the wire,
  or the view of a stored block that hashing serialises).
\<close>

datatype error = IndexError | ValueError | RequestException

record transaction =
  sender :: string
  recipient :: string
  amount :: int

record 'tx block =
  index :: int
  timestamp :: real
  transactions :: 'tx
  proof' :: int
  previous_hash :: string

type_synonym ref = nat
type_synonym vblock = "transaction list block"
type_synonym oblock = "ref block"

record blockchain =
  heap :: "transaction list list"
  current_transactions :: ref
  chain :: "oblock list"
  nodes :: "string set"

text \<open>The result of \<^verbatim>\<open>urlparse\<close>: the six components of a URL.\<close>

record parse_result =
  scheme :: string
  netloc :: string
  path :: string
  params :: string
  query :: string
  fragment :: string

text \<open>
  The answer of a peer to \<^verbatim>\<open>GET /chain\<close>: the status code and the two
  entries \<^verbatim>\<open>length\<close> and \<^verbatim>\<open>chain\<close> of its JSON body.
\<close>

record response =
  status_code :: int
  json_length :: int
  json_chain :: "vblock list"

text \<open>
  The library functions the class calls are not part of the repository; every
  operation takes them as a parameter: \<^verbatim>\<open>json.dumps(block, sort_keys=True)\<close>,
  \<^verbatim>\<open>sha256(bytes).hexdigest()\<close> and \<^verbatim>\<open>urlparse\<close>.
\<close>

record env =
  json_dumps :: "vblock \<Rightarrow> string"
  sha256_hexdigest :: "string \<Rightarrow> string"
  urlparse :: "string \<Rightarrow> error + parse_result"

section \<open>The store of list objects\<close>

definition deref :: "transaction list list \<Rightarrow> oblock \<Rightarrow> vblock" where
  "deref h b =
     \<lparr>index = index b, timestamp = timestamp b, transactions = h ! transactions b,
      proof' = proof' b, previous_hash = previous_hash b\<rparr>"

text \<open>What a reader of the chain sees: every block with the contents of its list.\<close>

definition chain_view :: "blockchain \<Rightarrow> vblock list" where
  "chain_view s = map (deref (heap s)) (chain s)"

definition pool_view :: "blockchain \<Rightarrow> transaction list" where
  "pool_view s = heap s ! current_transactions s"

text \<open>Storing a decoded chain: each block's list becomes a new object.\<close>

fun alloc_chain :: "transaction list list \<Rightarrow> vblock list \<Rightarrow> transaction list list \<times> oblock list" where
  "alloc_chain h [] = (h, [])"
| "alloc_chain h (b # bs) =
     (let (h', obs) = alloc_chain (h @ [transactions b]) bs
      in (h', \<lparr>index = index b, timestamp = timestamp b, transactions = length h,
               proof' = proof' b, previous_hash = previous_hash b\<rparr> # obs))"

section \<open>Formatting integers\<close>

text \<open>Python's \<^verbatim>\<open>str\<close> on an integer, as the f-string of \<^verbatim>\<open>validate\<close> applies it.\<close>

fun str_nat :: "nat \<Rightarrow> string" where
  "str_nat n = (if n < 10 then [''0123456789'' ! n]
                else str_nat (n div 10) @ [''0123456789'' ! (n mod 10)])"

declare str_nat.simps [simp del]

definition str_int :: "int \<Rightarrow> string" where
  "str_int i = (if i < 0 then CHR ''-'' # str_nat (nat (- i)) else str_nat (nat i))"

section \<open>The methods of \<^verbatim>\<open>Blockchain\<close>\<close>

subsection \<open>\<^verbatim>\<open>hash\<close> and \<^verbatim>\<open>validate\<close>\<close>

definition hash :: "env \<Rightarrow> vblock \<Rightarrow> string" where
  "hash e block = sha256_hexdigest e (json_dumps e block)"

definition default_difficulty :: nat where
  "default_difficulty = 4"

text \<open>
  \<^verbatim>\<open>guess_hash[:difficulty] == '0' * difficulty\<close>, for a difficulty that is a
  count (the docstring: the number of zeros needed).
\<close>

definition validate :: "env \<Rightarrow> int \<Rightarrow> int \<Rightarrow> string \<Rightarrow> nat \<Rightarrow> bool" where
  "validate e last_proof proof last_hash difficulty =
     (let guess = str_int last_proof @ str_int proof @ last_hash;
          guess_hash = sha256_hexdigest e guess
      in take difficulty guess_hash = replicate difficulty (CHR ''0''))"

subsection \<open>\<^verbatim>\<open>valid_chain\<close>\<close>

function valid_chain_loop :: "env \<Rightarrow> vblock list \<Rightarrow> vblock \<Rightarrow> nat \<Rightarrow> bool" where
  "valid_chain_loop e chn last_block current_index =
     (if current_index < length chn then
        (let block = chn ! current_index;
             last_block_hash = hash e last_block
         in if previous_hash block \<noteq> last_block_hash then False
            else if \<not> validate e (proof' last_block) (proof' block) last_block_hash
                        default_difficulty then False
            else valid_chain_loop e chn block (current_index + 1))
      else True)"
  by pat_completeness auto
termination
  by (relation "measure (\<lambda>(e, chn, last_block, current_index). length chn - current_index)") auto

declare valid_chain_loop.simps [simp del]

definition valid_chain :: "env \<Rightarrow> vblock list \<Rightarrow> error + bool" where
  "valid_chain e chn =
     (case chn of
        [] \<Rightarrow> Inl IndexError
      | last_block # _ \<Rightarrow> Inr (valid_chain_loop e chn last_block 1))"

subsection \<open>\<^verbatim>\<open>proof_of_work\<close>\<close>

text \<open>The search has no bound, so not returning is the value \<open>None\<close>.\<close>

partial_function (option) proof_of_work_loop :: "env \<Rightarrow> int \<Rightarrow> string \<Rightarrow> int \<Rightarrow> int option" where
  "proof_of_work_loop e last_proof last_hash proof =
     (if \<not> validate e last_proof proof last_hash default_difficulty
      then proof_of_work_loop e last_proof last_hash (proof + 1)
      else Some proof)"

declare proof_of_work_loop.simps [code]

definition proof_of_work :: "env \<Rightarrow> vblock \<Rightarrow> int option" where
  "proof_of_work e last_block =
     (let last_proof = proof' last_block;
          last_hash = hash e last_block
      in proof_of_work_loop e last_proof last_hash 0)"

subsection \<open>\<^verbatim>\<open>last_block\<close>, \<^verbatim>\<open>new_transaction\<close>, \<^verbatim>\<open>add_block\<close>, \<^verbatim>\<open>__init__\<close>\<close>

definition last_block :: "blockchain \<Rightarrow> error + oblock" where
  "last_block s = (case chain s of [] \<Rightarrow> Inl IndexError | _ # _ \<Rightarrow> Inr (last (chain s)))"

text \<open>
  A method returns its result, or the exception it raised, together with the
  object as it is then: \<^verbatim>\<open>new_transaction\<close> has appended to the pool before
  \<^verbatim>\<open>last_block\<close> can raise.
\<close>

definition new_transaction ::
  "string \<Rightarrow> string \<Rightarrow> int \<Rightarrow> blockchain \<Rightarrow> (error + int) \<times> blockchain" where
  "new_transaction sndr rcpt amt s =
     (let tx = \<lparr>sender = sndr, recipient = rcpt, amount = amt\<rparr>;
          p = current_transactions s;
          s' = s\<lparr>heap := (heap s)[p := heap s ! p @ [tx]]\<rparr>
      in case last_block s' of
           Inl err \<Rightarrow> (Inl err, s')
         | Inr b \<Rightarrow> (Inr (index b + 1), s'))"

text \<open>
  \<^verbatim>\<open>previous_hash or self.hash(self.chain[-1])\<close>: \<^verbatim>\<open>None\<close> and the empty
  string are both false, and the right operand is evaluated only then. The
  block takes the pool list object itself; the pool attribute is then bound to
  a new empty list. The argument \<open>now\<close> is the reading of \<^verbatim>\<open>time()\<close>.
\<close>

definition py_or :: "string option \<Rightarrow> error + string \<Rightarrow> error + string" where
  "py_or v alt = (case v of None \<Rightarrow> alt | Some x \<Rightarrow> if x = [] then alt else Inr x)"

definition add_block ::
  "env \<Rightarrow> real \<Rightarrow> int \<Rightarrow> string option \<Rightarrow> blockchain \<Rightarrow> (error + oblock) \<times> blockchain" where
  "add_block e now proof prev_hash s =
     (case py_or prev_hash
             (case chain s of
                [] \<Rightarrow> Inl IndexError
              | _ # _ \<Rightarrow> Inr (hash e (deref (heap s) (last (chain s))))) of
        Inl err \<Rightarrow> (Inl err, s)
      | Inr ph \<Rightarrow>
          (let block = \<lparr>index = int (length (chain s)) + 1, timestamp = now,
                        transactions = current_transactions s, proof' = proof,
                        previous_hash = ph\<rparr>
           in (Inr block,
               s\<lparr>heap := heap s @ [[]], current_transactions := length (heap s),
                 chain := chain s @ [block]\<rparr>)))"

definition init :: "env \<Rightarrow> real \<Rightarrow> error + blockchain" where
  "init e now =
     (let s0 = \<lparr>heap = [[]], current_transactions = 0, chain = [], nodes = {}\<rparr>
      in case add_block e now 42 (Some ''secret'') s0 of
           (Inl err, _) \<Rightarrow> Inl err
         | (Inr _, s1) \<Rightarrow> Inr (s1\<lparr>nodes := {}\<rparr>))"

subsection \<open>\<^verbatim>\<open>register_node\<close>\<close>

definition register_node :: "env \<Rightarrow> string \<Rightarrow> blockchain \<Rightarrow> (error + unit) \<times> blockchain" where
  "register_node e address s =
     (case urlparse e address of
        Inl err \<Rightarrow> (Inl err, s)
      | Inr parsed_url \<Rightarrow>
          if netloc parsed_url \<noteq> [] then
            (Inr (), s\<lparr>nodes := insert (netloc parsed_url) (nodes s)\<rparr>)
          else if path parsed_url \<noteq> [] then
            (Inr (), s\<lparr>nodes := insert (path parsed_url) (nodes s)\<rparr>)
          else (Inl ValueError, s))"

subsection \<open>\<^verbatim>\<open>resolve_conflicts\<close>\<close>

text \<open>
  \<open>get\<close> is \<^verbatim>\<open>requests.get\<close>: it answers a URL with a response or raises.
  A Python set has no iteration order of its own, so the order in which the
  loop meets the nodes is the argument \<open>neighbors\<close>, an enumeration of
  \<^verbatim>\<open>self.nodes\<close>. The loop carries \<^verbatim>\<open>new_chain\<close> and \<^verbatim>\<open>max_length\<close>;
  \<^verbatim>\<open>and\<close> calls \<^verbatim>\<open>valid_chain\<close> only when the length test has passed.
\<close>

fun resolve_loop ::
  "env \<Rightarrow> (string \<Rightarrow> error + response) \<Rightarrow> string list \<Rightarrow> vblock list option \<Rightarrow> int
     \<Rightarrow> error + vblock list option \<times> int" where
  "resolve_loop e get [] new_chain max_length = Inr (new_chain, max_length)"
| "resolve_loop e get (node # rest) new_chain max_length =
     (case get (''http://'' @ node @ ''/chain'') of
        Inl err \<Rightarrow> Inl err
      | Inr rsp \<Rightarrow>
          if status_code rsp = 200 then
            (let len = json_length rsp; chn = json_chain rsp
             in if len > max_length then
                  (case valid_chain e chn of
                     Inl err \<Rightarrow> Inl err
                   | Inr ok \<Rightarrow>
                       if ok then resolve_loop e get rest (Some chn) len
                       else resolve_loop e get rest new_chain max_length)
                else resolve_loop e get rest new_chain max_length)
          else resolve_loop e get rest new_chain max_length)"

text \<open>
  \<^verbatim>\<open>if new_chain:\<close> is false for \<^verbatim>\<open>None\<close> and for an empty list. The
  decoded chain becomes the chain of the object, its lists new objects.
\<close>

definition resolve_conflicts ::
  "env \<Rightarrow> (string \<Rightarrow> error + response) \<Rightarrow> string list \<Rightarrow> blockchain
     \<Rightarrow> (error + bool) \<times> blockchain" where
  "resolve_conflicts e get neighbors s =
     (case resolve_loop e get neighbors None (int (length (chain s))) of
        Inl err \<Rightarrow> (Inl err, s)
      | Inr (new_chain, _) \<Rightarrow>
          (case new_chain of
             None \<Rightarrow> (Inr False, s)
           | Some chn \<Rightarrow>
               if chn \<noteq> [] then
                 (let (h, obs) = alloc_chain (heap s) chn
                  in (Inr True, s\<lparr>heap := h, chain := obs\<rparr>))
               else (Inr False, s)))"

subsection \<open>Sequences of calls\<close>

datatype op =
    NewTransaction string string int
  | AddBlock real int "string option"
  | RegisterNode string
  | ResolveConflicts "string \<Rightarrow> error + response" "string list"

fun apply_op :: "env \<Rightarrow> op \<Rightarrow> blockchain \<Rightarrow> blockchain" where
  "apply_op e (NewTransaction sndr rcpt amt) s = snd (new_transaction sndr rcpt amt s)"
| "apply_op e (AddBlock now proof prev_hash) s = snd (add_block e now proof prev_hash s)"
| "apply_op e (RegisterNode address) s = snd (register_node e address s)"
| "apply_op e (ResolveConflicts get neighbors) s = snd (resolve_conflicts e get neighbors s)"

definition run :: "env \<Rightarrow> op list \<Rightarrow> blockchain \<Rightarrow> blockchain" where
  "run e ops s = fold (apply_op e) ops s"

fun ledger_op :: "op \<Rightarrow> bool" where
  "ledger_op (NewTransaction _ _ _) = True"
| "ledger_op (AddBlock _ _ _) = True"
| "ledger_op _ = False"

section \<open>An instance of the library functions\<close>

text \<open>
  Concrete inputs need concrete library functions. \<open>py_urlparse\<close> follows
  \<^verbatim>\<open>urllib.parse.urlparse\<close> of CPython 3.11 on ASCII addresses: leading
  control characters and spaces are stripped, tab, CR and LF removed, then
  scheme, network location, fragment, query and parameters are split off in
  that order. It raises for a network location with an unmatched bracket or
  with a bracketed host that is neither an IPv6 address nor an IPvFuture
  literal.
\<close>

definition ascii_lowercase :: string where
  "ascii_lowercase = ''abcdefghijklmnopqrstuvwxyz''"

definition ascii_uppercase :: string where
  "ascii_uppercase = ''ABCDEFGHIJKLMNOPQRSTUVWXYZ''"

definition scheme_chars :: string where
  "scheme_chars = ascii_lowercase @ ascii_uppercase @ ''0123456789+-.''"

definition lower_char :: "char \<Rightarrow> char" where
  "lower_char c = (case map_of (zip ascii_uppercase ascii_lowercase) c of
                     Some d \<Rightarrow> d | None \<Rightarrow> c)"

definition uses_params :: "string list" where
  "uses_params = [[], ''ftp'', ''hdl'', ''prospero'', ''http'', ''imap'', ''https'',
                  ''shttp'', ''rtsp'', ''rtsps'', ''rtspu'', ''sip'', ''sips'', ''mms'',
                  ''sftp'', ''tel'']"

definition split_once :: "char \<Rightarrow> string \<Rightarrow> string \<times> string" where
  "split_once c url =
     (if c \<in> set url
      then (takeWhile (\<lambda>x. x \<noteq> c) url, tl (dropWhile (\<lambda>x. x \<noteq> c) url))
      else (url, []))"

definition split_scheme :: "string \<Rightarrow> string \<times> string" where
  "split_scheme url =
     (let pre = takeWhile (\<lambda>x. x \<noteq> CHR '':'') url
      in if CHR '':'' \<in> set url \<and> pre \<noteq> []
            \<and> hd url \<in> set (ascii_lowercase @ ascii_uppercase)
            \<and> list_all (\<lambda>c. c \<in> set scheme_chars) pre
         then (map lower_char pre, drop (length pre + 1) url)
         else ([], url))"

definition hex_digits :: string where
  "hex_digits = ''0123456789ABCDEFabcdef''"

text \<open>\<^verbatim>\<open>str.split(sep)\<close> for a separator of one character.\<close>

fun split_char :: "char \<Rightarrow> string \<Rightarrow> string list" where
  "split_char c [] = [[]]"
| "split_char c (x # xs) =
     (if x = c then [] # split_char c xs
      else (case split_char c xs of [] \<Rightarrow> [[x]] | p # ps \<Rightarrow> (x # p) # ps))"

text \<open>
  Whether \<^verbatim>\<open>ipaddress.IPv4Address\<close> and \<^verbatim>\<open>ipaddress.IPv6Address\<close> accept a
  string. Only acceptance matters to \<^verbatim>\<open>urlsplit\<close>, so the two groups that
  stand for an IPv4 suffix of an IPv6 address are written \<open>0\<close>.
\<close>

definition parse_octet_ok :: "string \<Rightarrow> bool" where
  "parse_octet_ok s \<longleftrightarrow>
     s \<noteq> [] \<and> list_all (\<lambda>c. c \<in> set ''0123456789'') s \<and> length s \<le> 3 \<and>
     \<not> (s \<noteq> ''0'' \<and> hd s = CHR ''0'') \<and>
     foldl (\<lambda>a c. 10 * a + (of_char c - 48)) (0::nat) s \<le> 255"

definition ipv4_ok :: "string \<Rightarrow> bool" where
  "ipv4_ok s \<longleftrightarrow>
     CHR ''/'' \<notin> set s \<and> s \<noteq> [] \<and> length (split_char (CHR ''.'') s) = 4 \<and>
     list_all parse_octet_ok (split_char (CHR ''.'') s)"

definition hextet_ok :: "string \<Rightarrow> bool" where
  "hextet_ok s \<longleftrightarrow> list_all (\<lambda>c. c \<in> set hex_digits) s \<and> length s \<le> 4 \<and> s \<noteq> []"

definition ipv6_parts_ok :: "string list \<Rightarrow> bool" where
  "ipv6_parts_ok parts \<longleftrightarrow>
     length parts \<le> 9 \<and>
     (case filter (\<lambda>i. parts ! i = []) [1 ..< length parts - 1] of
        [] \<Rightarrow> length parts = 8 \<and> hd parts \<noteq> [] \<and> last parts \<noteq> [] \<and>
              list_all hextet_ok parts
      | [skip_index] \<Rightarrow>
          (let parts_hi = (if hd parts = [] then skip_index - 1 else skip_index);
               parts_lo = (if last parts = [] then length parts - skip_index - 1 - 1
                           else length parts - skip_index - 1)
           in (hd parts = [] \<longrightarrow> parts_hi = 0) \<and> (last parts = [] \<longrightarrow> parts_lo = 0) \<and>
              parts_hi + parts_lo < 8 \<and>
              list_all hextet_ok (take parts_hi parts) \<and>
              list_all hextet_ok (drop (length parts - parts_lo) parts))
      | _ \<Rightarrow> False)"

definition ipv6_ok :: "string \<Rightarrow> bool" where
  "ipv6_ok s \<longleftrightarrow>
     CHR ''/'' \<notin> set s \<and>
     (let (addr, scope_id) = split_once (CHR ''%'') s;
          parts = split_char (CHR '':'') addr
      in (CHR ''%'' \<in> set s \<longrightarrow> scope_id \<noteq> [] \<and> CHR ''%'' \<notin> set scope_id) \<and>
         addr \<noteq> [] \<and> 3 \<le> length parts \<and>
         (if CHR ''.'' \<in> set (last parts)
          then ipv4_ok (last parts) \<and> ipv6_parts_ok (butlast parts @ [''0'', ''0''])
          else ipv6_parts_ok parts))"

text \<open>\<^verbatim>\<open>_check_bracketed_host\<close>: an IPvFuture literal or an IPv6 address.\<close>

definition bracketed_host_ok :: "string \<Rightarrow> bool" where
  "bracketed_host_ok hostname =
     (if take 1 hostname = ''v'' then
        (let hx = takeWhile (\<lambda>c. c \<in> set hex_digits) (tl hostname);
             rest = dropWhile (\<lambda>c. c \<in> set hex_digits) (tl hostname)
         in hx \<noteq> [] \<and> take 1 rest = ''.'' \<and> tl rest \<noteq> [])
      else \<not> ipv4_ok hostname \<and> ipv6_ok hostname)"

definition split_netloc :: "string \<Rightarrow> error + string \<times> string" where
  "split_netloc url =
     (if take 2 url = ''//'' then
        (let rest = drop 2 url;
             nl = takeWhile (\<lambda>x. x \<notin> set ''/?#'') rest;
             bracketed_host =
               takeWhile (\<lambda>x. x \<noteq> CHR '']'') (tl (dropWhile (\<lambda>x. x \<noteq> CHR ''['') nl))
         in if (CHR ''['' \<in> set nl) \<noteq> (CHR '']'' \<in> set nl) then Inl ValueError
            else if CHR ''['' \<in> set nl \<and> CHR '']'' \<in> set nl
                    \<and> \<not> bracketed_host_ok bracketed_host then Inl ValueError
            else Inr (nl, dropWhile (\<lambda>x. x \<notin> set ''/?#'') rest))
      else Inr ([], url))"

definition split_params :: "string \<Rightarrow> string \<times> string" where
  "split_params url =
     (if CHR ''/'' \<in> set url then
        (let k = length url - 1 - length (takeWhile (\<lambda>x. x \<noteq> CHR ''/'') (rev url));
             (pa, pb) = split_once (CHR '';'') (drop k url)
         in if CHR '';'' \<in> set (drop k url) then (take k url @ pa, pb) else (url, []))
      else split_once (CHR '';'') url)"

definition py_urlparse :: "string \<Rightarrow> error + parse_result" where
  "py_urlparse address =
     (let url0 = filter (\<lambda>c. c \<notin> set [CHR 0x09, CHR 0x0D, CHR 0x0A])
                   (dropWhile (\<lambda>c. (of_char c :: nat) \<le> 32) address);
          (sch, url1) = split_scheme url0
      in case split_netloc url1 of
           Inl err \<Rightarrow> Inl err
         | Inr (nl, url2) \<Rightarrow>
             (let (url3, frag) = split_once (CHR ''#'') url2;
                  (url4, qry) = split_once (CHR ''?'') url3;
                  (url5, prm) = (if sch \<in> set uses_params \<and> CHR '';'' \<in> set url4
                                 then split_params url4 else (url4, []))
              in Inr \<lparr>scheme = sch, netloc = nl, path = url5, params = prm,
                       query = qry, fragment = frag\<rparr>))"

text \<open>
  The serialisation and the digest of the instance are stand-ins with the
  shape of the real ones: the serialisation lists the fields of a block by
  sorted key (the timestamp by its integer part), and the digest of a string
  starts with as many zero characters as the sum of its bytes leaves modulo
  five, so that a search for a proof takes a few steps.
\<close>

definition demo_dumps_tx :: "transaction \<Rightarrow> string" where
  "demo_dumps_tx t = str_int (amount t) @ '' '' @ recipient t @ '' '' @ sender t @ '';''"

definition demo_dumps :: "vblock \<Rightarrow> string" where
  "demo_dumps b =
     str_int (index b) @ '','' @ previous_hash b @ '','' @ str_int (proof' b) @ '','' @
     str_int \<lfloor>timestamp b\<rfloor> @ '','' @ concat (map demo_dumps_tx (transactions b))"

definition demo_hexdigest :: "string \<Rightarrow> string" where
  "demo_hexdigest s =
     replicate (sum_list (map of_char s) mod 5) (CHR ''0'') @ ''f'' @ str_nat (length s)"

definition demo_env :: env where
  "demo_env = \<lparr>json_dumps = demo_dumps, sha256_hexdigest = demo_hexdigest,
                urlparse = py_urlparse\<rparr>"

definition demo_genesis :: vblock where
  "demo_genesis = \<lparr>index = 1, timestamp = 0, transactions = [], proof' = 42,
                    previous_hash = ''secret''\<rparr>"

definition demo_block2 :: vblock where
  "demo_block2 = \<lparr>index = 2, timestamp = 5,
                   transactions = [\<lparr>sender = ''0'', recipient = ''n1'', amount = 20\<rparr>],
                   proof' = 3, previous_hash = ''0f14''\<rparr>"

definition demo_block3 :: vblock where
  "demo_block3 = \<lparr>index = 3, timestamp = 7, transactions = [], proof' = 0,
                   previous_hash = ''0000f19''\<rparr>"

definition demo_state :: blockchain where
  "demo_state = \<lparr>heap = [[], []], current_transactions = 1,
       chain = [\<lparr>index = 1, timestamp = 0, transactions = 0, proof' = 42,
                 previous_hash = ''secret''\<rparr>],
       nodes = {}\<rparr>"

definition demo_ops :: "op list" where
  "demo_ops = [NewTransaction ''a'' ''b'' 10, AddBlock 9 1 (Some ''x''), NewTransaction ''c'' ''d'' 1]"

text \<open>
  Four peers: \<open>a\<close> reports two blocks and sends none, \<open>b\<close> reports two blocks
  and sends the genesis block alone, \<open>c\<close> reports three blocks and sends the
  two-block chain, \<open>d\<close> reports five blocks and sends the genesis block alone;
  nobody else answers.
\<close>

definition demo_get :: "string \<Rightarrow> error + response" where
  "demo_get url =
     (if url = ''http://a/chain'' then
        Inr \<lparr>status_code = 200, json_length = 2, json_chain = []\<rparr>
      else if url = ''http://b/chain'' then
        Inr \<lparr>status_code = 200, json_length = 2, json_chain = [demo_genesis]\<rparr>
      else if url = ''http://c/chain'' then
        Inr \<lparr>status_code = 200, json_length = 3, json_chain = [demo_genesis, demo_block2]\<rparr>
      else if url = ''http://d/chain'' then
        Inr \<lparr>status_code = 200, json_length = 5, json_chain = [demo_genesis]\<rparr>
      else Inl RequestException)"

section \<open>Notions used in the statements\<close>

text \<open>The digest that \<^verbatim>\<open>validate\<close> inspects: that of the three values concatenated.\<close>

definition guess_hash :: "env \<Rightarrow> int \<Rightarrow> int \<Rightarrow> string \<Rightarrow> string" where
  "guess_hash e last_proof proof last_hash =
     sha256_hexdigest e (str_int last_proof @ str_int proof @ last_hash)"

text \<open>The two checks \<^verbatim>\<open>valid_chain\<close> makes on an adjacent pair of blocks.\<close>

definition link_ok :: "env \<Rightarrow> vblock \<Rightarrow> vblock \<Rightarrow> bool" where
  "link_ok e prev cur \<longleftrightarrow>
     previous_hash cur = hash e prev \<and>
     validate e (proof' prev) (proof' cur) (hash e prev) default_difficulty"

text \<open>
  The references of an object are in order when the pool and the list of every
  block are objects of the store and no block holds the pool's list.
\<close>

definition wf_state :: "blockchain \<Rightarrow> bool" where
  "wf_state s \<longleftrightarrow>
     current_transactions s < length (heap s) \<and>
     (\<forall>b \<in> set (chain s). transactions b < length (heap s) \<and>
                           transactions b \<noteq> current_transactions s)"

text \<open>
  What a peer answers to the request of \<^verbatim>\<open>resolve_conflicts\<close>, and the test
  the loop applies to the answer when \<^verbatim>\<open>max_length\<close> is \<open>m\<close>: status 200, a
  reported length above \<open>m\<close>, a chain that \<^verbatim>\<open>valid_chain\<close> accepts. A peer is
  in order when it answers at all and does not report a length above \<open>m\<close>
  together with an empty chain.
\<close>

definition answer :: "(string \<Rightarrow> error + response) \<Rightarrow> string \<Rightarrow> error + response" where
  "answer get node = get (''http://'' @ node @ ''/chain'')"

definition eligible :: "env \<Rightarrow> int \<Rightarrow> response \<Rightarrow> bool" where
  "eligible e m rsp \<longleftrightarrow>
     status_code rsp = 200 \<and> json_length rsp > m \<and> valid_chain e (json_chain rsp) = Inr True"

definition peer_eligible :: "env \<Rightarrow> (string \<Rightarrow> error + response) \<Rightarrow> int \<Rightarrow> string \<Rightarrow> bool" where
  "peer_eligible e get m node =
     (case answer get node of Inl _ \<Rightarrow> False | Inr rsp \<Rightarrow> eligible e m rsp)"

definition peer_ok :: "(string \<Rightarrow> error + response) \<Rightarrow> int \<Rightarrow> string \<Rightarrow> bool" where
  "peer_ok get m node =
     (case answer get node of
        Inl _ \<Rightarrow> False
      | Inr rsp \<Rightarrow> \<not> (status_code rsp = 200 \<and> json_length rsp > m \<and> json_chain rsp = []))"

definition peer_length :: "(string \<Rightarrow> error + response) \<Rightarrow> string \<Rightarrow> int" where
  "peer_length get node = (case answer get node of Inl _ \<Rightarrow> 0 | Inr rsp \<Rightarrow> json_length rsp)"

definition peer_chain :: "(string \<Rightarrow> error + response) \<Rightarrow> string \<Rightarrow> vblock list" where
  "peer_chain get node = (case answer get node of Inl _ \<Rightarrow> [] | Inr rsp \<Rightarrow> json_chain rsp)"

section \<open>Proof of work: \<^verbatim>\<open>validate\<close>\<close>

lemma take_eq_replicate:
  "take d g = replicate d c \<longleftrightarrow> d \<le> length g \<and> (\<forall>i<d. g ! i = c)"
  by (auto simp: list_eq_iff_nth_eq min_def)

lemma validate_char:
  "validate e lp p lh d \<longleftrightarrow>
     d \<le> length (guess_hash e lp p lh) \<and> (\<forall>i<d. guess_hash e lp p lh ! i = CHR ''0'')"
  by (simp add: validate_def guess_hash_def take_eq_replicate Let_def)

text \<open>
  C5. \<^verbatim>\<open>validate\<close> is true exactly when the hex digest of the concatenation of
  last proof, proof and last hash has \<open>d\<close> characters at least and its first
  \<open>d\<close> characters are all the zero character; so it is false at difficulty
  \<open>d + 1\<close> when the character after the first \<open>d\<close> is missing or not zero. The
  difficulty used when none is given is 4.
\<close>

theorem validate_leading_zeros:
  "(validate e lp p lh d \<longleftrightarrow>
      d \<le> length (guess_hash e lp p lh) \<and> (\<forall>i<d. guess_hash e lp p lh ! i = CHR ''0''))
   \<and> (\<not> (d < length (guess_hash e lp p lh) \<and> guess_hash e lp p lh ! d = CHR ''0'')
        \<longrightarrow> \<not> validate e lp p lh (Suc d))
   \<and> default_difficulty = 4"
proof (intro conjI impI)
  show "validate e lp p lh d \<longleftrightarrow>
      d \<le> length (guess_hash e lp p lh) \<and> (\<forall>i<d. guess_hash e lp p lh ! i = CHR ''0'')"
    by (rule validate_char)
  show "default_difficulty = 4"
    by (simp add: default_difficulty_def)
next
  assume "\<not> (d < length (guess_hash e lp p lh) \<and> guess_hash e lp p lh ! d = CHR ''0'')"
  then show "\<not> validate e lp p lh (Suc d)"
    unfolding validate_char [of e lp p lh "Suc d"] by auto
qed

theorem validate_leading_zeros_witness:
  "validate demo_env 42 3 ''0f14'' 4
   \<and> guess_hash demo_env 42 3 ''0f14'' = ''0000f7''
   \<and> \<not> validate demo_env 42 3 ''0f14'' 5
   \<and> \<not> validate demo_env 42 2 ''0f14'' 4"
proof -
  have g3: "guess_hash demo_env 42 3 ''0f14'' = ''0000f7''" by code_simp
  have g2: "guess_hash demo_env 42 2 ''0f14'' = ''000f7''" by code_simp
  have z: "\<forall>i<4. ''0000f7'' ! i = CHR ''0''"
    by (simp add: less_Suc_eq numeral_nat)
  have "validate demo_env 42 3 ''0f14'' 4"
    using validate_leading_zeros [of demo_env 42 3 "''0f14''" 4, THEN conjunct1] z
    by (simp add: g3)
  moreover have "\<not> validate demo_env 42 3 ''0f14'' 5"
    using validate_leading_zeros [of demo_env 42 3 "''0f14''" 4, THEN conjunct2, THEN conjunct1]
    by (simp add: g3 eval_nat_numeral)
  moreover have "\<not> validate demo_env 42 2 ''0f14'' 4"
    using validate_leading_zeros [of demo_env 42 2 "''0f14''" 3, THEN conjunct2, THEN conjunct1]
    by (simp add: g2 eval_nat_numeral)
  ultimately show ?thesis using g3 by simp
qed

section \<open>\<^verbatim>\<open>valid_chain\<close>\<close>

lemma valid_chain_loop_char:
  "0 < k \<Longrightarrow> k \<le> length chn \<Longrightarrow>
   valid_chain_loop e chn (chn ! (k - 1)) k =
     (\<forall>i. k \<le> Suc i \<and> Suc i < length chn \<longrightarrow> link_ok e (chn ! i) (chn ! Suc i))"
proof (induction "length chn - k" arbitrary: k)
  case 0
  then have "k = length chn" by simp
  then show ?case by (subst valid_chain_loop.simps) auto
next
  case (Suc n)
  then have lt: "k < length chn" by simp
  have IH: "valid_chain_loop e chn (chn ! k) (Suc k) =
     (\<forall>i. Suc k \<le> Suc i \<and> Suc i < length chn \<longrightarrow> link_ok e (chn ! i) (chn ! Suc i))"
    using Suc.hyps(1)[of "Suc k"] Suc.hyps(2) lt by simp
  have split: "(\<forall>i. k \<le> Suc i \<and> Suc i < length chn \<longrightarrow> link_ok e (chn ! i) (chn ! Suc i)) \<longleftrightarrow>
      link_ok e (chn ! (k - 1)) (chn ! k) \<and>
      (\<forall>i. Suc k \<le> Suc i \<and> Suc i < length chn \<longrightarrow> link_ok e (chn ! i) (chn ! Suc i))"
    (is "?L \<longleftrightarrow> ?A \<and> ?R")
  proof
    assume L: ?L
    have "?A" using L[rule_format, of "k - 1"] Suc.prems lt by simp
    moreover have ?R using L by auto
    ultimately show "?A \<and> ?R" ..
  next
    assume AR: "?A \<and> ?R"
    show ?L
    proof (intro allI impI)
      fix i assume i: "k \<le> Suc i \<and> Suc i < length chn"
      show "link_ok e (chn ! i) (chn ! Suc i)"
      proof (cases "Suc i = k")
        case True
        then show ?thesis using AR by auto
      next
        case False
        then show ?thesis using AR i by auto
      qed
    qed
  qed
  show ?case
    unfolding split
    using lt IH
    by (subst valid_chain_loop.simps) (auto simp: Let_def link_ok_def)
qed

lemma valid_chain_char:
  "valid_chain e chn =
     (if chn = [] then Inl IndexError
      else Inr (\<forall>i. Suc i < length chn \<longrightarrow> link_ok e (chn ! i) (chn ! Suc i)))"
proof (cases chn)
  case Nil
  then show ?thesis by (simp add: valid_chain_def)
next
  case (Cons b bs)
  have "valid_chain_loop e chn (chn ! (1 - 1)) 1 =
     (\<forall>i. 1 \<le> Suc i \<and> Suc i < length chn \<longrightarrow> link_ok e (chn ! i) (chn ! Suc i))"
    by (rule valid_chain_loop_char) (simp_all add: Cons)
  then show ?thesis by (simp add: valid_chain_def Cons)
qed

lemma demo_chain_valid: "valid_chain demo_env [demo_genesis, demo_block2] = Inr True"
  by code_simp

text \<open>
  The pairwise walk. On a chain with at least one block \<^verbatim>\<open>valid_chain\<close> returns
  whether every adjacent pair passes both checks: the later block's
  \<^verbatim>\<open>previous_hash\<close> is the digest of the earlier one and \<^verbatim>\<open>validate\<close> accepts
  the two proofs with that digest.
\<close>

theorem valid_chain_pairwise:
  "valid_chain e chn =
     (if chn = [] then Inl IndexError
      else Inr (\<forall>i. Suc i < length chn \<longrightarrow>
                  previous_hash (chn ! Suc i) = hash e (chn ! i) \<and>
                  validate e (proof' (chn ! i)) (proof' (chn ! Suc i)) (hash e (chn ! i))
                    default_difficulty))"
  using valid_chain_char [of e chn] by (simp add: link_ok_def)

theorem valid_chain_pairwise_witness:
  "valid_chain demo_env [demo_genesis, demo_block2] = Inr True
   \<and> previous_hash demo_block2 = hash demo_env demo_genesis
   \<and> validate demo_env (proof' demo_genesis) (proof' demo_block2) (hash demo_env demo_genesis)
       default_difficulty"
proof -
  have "valid_chain demo_env [demo_genesis, demo_block2] = Inr True"
    by (rule demo_chain_valid)
  then show ?thesis
    using valid_chain_pairwise [of demo_env "[demo_genesis, demo_block2]"] by auto
qed

text \<open>
  C2. For every candidate chain \<^verbatim>\<open>valid_chain\<close> is to return a truth value, and
  false for the empty chain; its docstring promises ``True if the chain is
  valid else False''. The code reads \<^verbatim>\<open>chain[0]\<close> before the loop, with no test
  of the length, so on the empty chain it raises \<^verbatim>\<open>IndexError\<close> and returns
  nothing, whatever the hash and the serialiser are.
\<close>

theorem valid_chain_empty_raises:
  "valid_chain e [] = Inl IndexError \<and> valid_chain e [] \<noteq> Inr False"
  by (simp add: valid_chain_def)

section \<open>\<^verbatim>\<open>valid_chain\<close> on a changed chain\<close>

lemma valid_chain_links:
  "valid_chain e chn = Inr True \<longleftrightarrow>
     chn \<noteq> [] \<and> (\<forall>j. Suc j < length chn \<longrightarrow> link_ok e (chn ! j) (chn ! Suc j))"
  by (simp add: valid_chain_char)

lemma valid_chain_broken:
  assumes "Suc j < length chn" "\<not> link_ok e (chn ! j) (chn ! Suc j)"
  shows "valid_chain e chn = Inr False"
proof -
  have "chn \<noteq> []" using assms(1) by auto
  moreover have "\<not> (\<forall>j. Suc j < length chn \<longrightarrow> link_ok e (chn ! j) (chn ! Suc j))"
    using assms by blast
  ultimately show ?thesis by (simp add: valid_chain_char)
qed

lemma replaced_successor_breaks:
  assumes v: "valid_chain e chn = Inr True" and i: "Suc i < length chn"
    and h: "hash e b \<noteq> hash e (chn ! i)"
  shows "valid_chain e (chn[i := b]) = Inr False"
proof (rule valid_chain_broken [where j = i])
  show "Suc i < length (chn[i := b])" using i by simp
  have "link_ok e (chn ! i) (chn ! Suc i)" using v i by (simp add: valid_chain_links)
  then have "previous_hash (chn ! Suc i) = hash e (chn ! i)" by (simp add: link_ok_def)
  then show "\<not> link_ok e (chn[i := b] ! i) (chn[i := b] ! Suc i)"
    using h i by (simp add: link_ok_def)
qed

lemma replaced_predecessor_breaks:
  assumes v: "valid_chain e chn = Inr True" and i: "0 < i" "i < length chn"
    and h: "previous_hash b \<noteq> previous_hash (chn ! i) \<or>
            \<not> validate e (proof' (chn ! (i - 1))) (proof' b) (hash e (chn ! (i - 1)))
                 default_difficulty"
  shows "valid_chain e (chn[i := b]) = Inr False"
proof (rule valid_chain_broken [where j = "i - 1"])
  show "Suc (i - 1) < length (chn[i := b])" using i by simp
  have L: "\<forall>j. Suc j < length chn \<longrightarrow> link_ok e (chn ! j) (chn ! Suc j)"
    using v by (simp add: valid_chain_links)
  obtain k where k: "i = Suc k" using i by (cases i) auto
  have "link_ok e (chn ! k) (chn ! Suc k)" using L i k by blast
  then have "previous_hash (chn ! i) = hash e (chn ! (i - 1))"
    using k by (simp add: link_ok_def)
  then show "\<not> link_ok e (chn[i := b] ! (i - 1)) (chn[i := b] ! Suc (i - 1))"
    using h i by (auto simp: link_ok_def)
qed

lemma omitted_interior_breaks:
  assumes v: "valid_chain e chn = Inr True" and i: "0 < i" "Suc i < length chn"
    and h: "hash e (chn ! (i - 1)) \<noteq> hash e (chn ! i)"
  shows "valid_chain e (take i chn @ drop (Suc i) chn) = Inr False"
proof (rule valid_chain_broken [where j = "i - 1"])
  let ?c = "take i chn @ drop (Suc i) chn"
  show "Suc (i - 1) < length ?c" using i by simp
  have a: "?c ! (i - 1) = chn ! (i - 1)" using i by (simp add: nth_append)
  have b: "?c ! Suc (i - 1) = chn ! Suc i" using i by (simp add: nth_append)
  have "link_ok e (chn ! i) (chn ! Suc i)" using v i by (simp add: valid_chain_links)
  then have "previous_hash (chn ! Suc i) = hash e (chn ! i)" by (simp add: link_ok_def)
  then show "\<not> link_ok e (?c ! (i - 1)) (?c ! Suc (i - 1))"
    unfolding a b using h by (simp add: link_ok_def)
qed

lemma replaced_last_accepted:
  assumes v: "valid_chain e chn = Inr True" and i: "Suc i = length chn"
    and p: "proof' b = proof' (chn ! i)" "previous_hash b = previous_hash (chn ! i)"
  shows "valid_chain e (chn[i := b]) = Inr True"
proof -
  have L: "link_ok e (chn ! j) (chn ! Suc j)" if "Suc j < length chn" for j
    using v that by (simp add: valid_chain_links)
  have "link_ok e (chn[i := b] ! j) (chn[i := b] ! Suc j)" if "Suc j < length chn" for j
  proof (cases "Suc j = i")
    case True
    then have "link_ok e (chn ! j) (chn ! i)" using L [OF that] by simp
    then show ?thesis using True p that by (simp add: link_ok_def)
  next
    case False
    then have "chn[i := b] ! j = chn ! j" "chn[i := b] ! Suc j = chn ! Suc j"
      using that i by auto
    then show ?thesis using L [OF that] by simp
  qed
  moreover have "chn[i := b] \<noteq> []" using i by auto
  ultimately show ?thesis by (simp add: valid_chain_links)
qed

lemma omitted_end_accepted:
  assumes v: "valid_chain e chn = Inr True" and l: "1 < length chn"
  shows "valid_chain e (butlast chn) = Inr True" and "valid_chain e (tl chn) = Inr True"
proof -
  have L: "link_ok e (chn ! j) (chn ! Suc j)" if "Suc j < length chn" for j
    using v that by (simp add: valid_chain_links)
  have "butlast chn \<noteq> []" using l by (cases chn rule: rev_cases) auto
  moreover have "link_ok e (butlast chn ! j) (butlast chn ! Suc j)"
    if "Suc j < length (butlast chn)" for j
    using that L [of j] by (simp add: nth_butlast)
  ultimately show "valid_chain e (butlast chn) = Inr True" by (simp add: valid_chain_links)
  have "tl chn \<noteq> []" using l by (cases chn) auto
  moreover have "link_ok e (tl chn ! j) (tl chn ! Suc j)" if "Suc j < length (tl chn)" for j
    using that L [of "Suc j"] by (simp add: nth_tl)
  ultimately show "valid_chain e (tl chn) = Inr True" by (simp add: valid_chain_links)
qed

text \<open>
  C3. Let \<^verbatim>\<open>valid_chain\<close> accept a chain, and let one block of it be replaced or
  left out. The walk only ever compares a block's digest with the
  \<^verbatim>\<open>previous_hash\<close> of its successor, and only reads the \<^verbatim>\<open>proof\<close> and the
  \<^verbatim>\<open>previous_hash\<close> of a block itself. So the changed chain is rejected when
  the replaced block has a successor and its digest changed; when it has a
  predecessor and its \<^verbatim>\<open>previous_hash\<close> changed, or its new \<^verbatim>\<open>proof\<close> fails
  \<^verbatim>\<open>validate\<close> against the predecessor; and when the block left out has both
  neighbours and its digest differs from that of its predecessor. A change to
  the last block that keeps its \<^verbatim>\<open>proof\<close> and its \<^verbatim>\<open>previous_hash\<close> is accepted,
  and so is leaving out the first or the last block of a chain of two or more.
\<close>

theorem valid_chain_tampering:
  assumes "valid_chain e chn = Inr True" and "i < length chn"
  shows "(Suc i < length chn \<and> hash e b \<noteq> hash e (chn ! i)
            \<longrightarrow> valid_chain e (chn[i := b]) = Inr False) \<and>
         (0 < i \<and> (previous_hash b \<noteq> previous_hash (chn ! i) \<or>
                   \<not> validate e (proof' (chn ! (i - 1))) (proof' b) (hash e (chn ! (i - 1)))
                        default_difficulty)
            \<longrightarrow> valid_chain e (chn[i := b]) = Inr False) \<and>
         (0 < i \<and> Suc i < length chn \<and> hash e (chn ! (i - 1)) \<noteq> hash e (chn ! i)
            \<longrightarrow> valid_chain e (take i chn @ drop (Suc i) chn) = Inr False) \<and>
         (Suc i = length chn \<and> proof' b = proof' (chn ! i) \<and>
          previous_hash b = previous_hash (chn ! i)
            \<longrightarrow> valid_chain e (chn[i := b]) = Inr True) \<and>
         (1 < length chn
            \<longrightarrow> valid_chain e (butlast chn) = Inr True \<and> valid_chain e (tl chn) = Inr True)"
  using assms replaced_successor_breaks [of e chn i b] replaced_predecessor_breaks [of e chn i b]
    omitted_interior_breaks [of e chn i] replaced_last_accepted [of e chn i b]
    omitted_end_accepted [of e chn]
  by blast

lemma demo_chain3_valid: "valid_chain demo_env [demo_genesis, demo_block2, demo_block3] = Inr True"
  by code_simp

theorem valid_chain_tampering_witness:
  "valid_chain demo_env [demo_genesis, demo_block2, demo_block3] = Inr True \<and>
   hash demo_env (demo_block2\<lparr>transactions := []\<rparr>) \<noteq> hash demo_env demo_block2 \<and>
   valid_chain demo_env [demo_genesis, demo_block2\<lparr>transactions := []\<rparr>, demo_block3] = Inr False \<and>
   previous_hash (demo_block2\<lparr>previous_hash := ''0f15''\<rparr>) \<noteq> previous_hash demo_block2 \<and>
   valid_chain demo_env [demo_genesis, demo_block2\<lparr>previous_hash := ''0f15''\<rparr>, demo_block3]
     = Inr False \<and>
   hash demo_env demo_genesis \<noteq> hash demo_env demo_block2 \<and>
   valid_chain demo_env [demo_genesis, demo_block3] = Inr False \<and>
   valid_chain demo_env [demo_genesis, demo_block2, demo_block3\<lparr>index := 9\<rparr>] = Inr True \<and>
   valid_chain demo_env [demo_genesis, demo_block2] = Inr True \<and>
   valid_chain demo_env [demo_block2, demo_block3] = Inr True"
proof -
  let ?c = "[demo_genesis, demo_block2, demo_block3]"
  have v: "valid_chain demo_env ?c = Inr True" by (rule demo_chain3_valid)
  have h1: "hash demo_env (demo_block2\<lparr>transactions := []\<rparr>) \<noteq> hash demo_env demo_block2"
    by code_simp
  have h2: "hash demo_env demo_genesis \<noteq> hash demo_env demo_block2" by code_simp
  have p: "previous_hash (demo_block2\<lparr>previous_hash := ''0f15''\<rparr>) \<noteq> previous_hash demo_block2"
    by (simp add: demo_block2_def)
  have i1: "(1::nat) < length ?c" and i2: "(2::nat) < length ?c" by simp_all
  show ?thesis
    using valid_chain_tampering [OF v i1, of "demo_block2\<lparr>transactions := []\<rparr>"]
      valid_chain_tampering [OF v i1, of "demo_block2\<lparr>previous_hash := ''0f15''\<rparr>"]
      valid_chain_tampering [OF v i2, of "demo_block3\<lparr>index := 9\<rparr>"]
      v h1 h2 p
    by (simp add: numeral_2_eq_2)
qed

text \<open>
  C3 as the specification words it fails at the end of the chain: no later
  block holds the digest of the last one. Emptying the transactions of the last
  block, or changing its index, leaves the chain accepted; so does leaving out
  either block of a chain of two.
\<close>

theorem valid_chain_tampering_counterexample:
  "valid_chain demo_env [demo_genesis, demo_block2] = Inr True \<and>
   demo_block2\<lparr>transactions := []\<rparr> \<noteq> demo_block2 \<and>
   valid_chain demo_env [demo_genesis, demo_block2\<lparr>transactions := []\<rparr>] = Inr True \<and>
   demo_block2\<lparr>index := 7\<rparr> \<noteq> demo_block2 \<and>
   valid_chain demo_env [demo_genesis, demo_block2\<lparr>index := 7\<rparr>] = Inr True \<and>
   valid_chain demo_env [demo_genesis] = Inr True \<and>
   valid_chain demo_env [demo_block2] = Inr True"
proof -
  have a: "valid_chain demo_env [demo_genesis, demo_block2\<lparr>transactions := []\<rparr>] = Inr True"
    by code_simp
  have b: "valid_chain demo_env [demo_genesis, demo_block2\<lparr>index := 7\<rparr>] = Inr True"
    by code_simp
  have c: "valid_chain demo_env [demo_genesis] = Inr True"
    "valid_chain demo_env [demo_block2] = Inr True"
    by (simp_all add: valid_chain_char)
  show ?thesis using a b c demo_chain_valid by (simp add: demo_block2_def)
qed

section \<open>Proof of work: \<^verbatim>\<open>proof_of_work\<close>\<close>

lemma pow_loop_found:
  "validate e lp (p0 + int n) lh default_difficulty \<Longrightarrow>
   (\<forall>q. p0 \<le> q \<and> q < p0 + int n \<longrightarrow> \<not> validate e lp q lh default_difficulty) \<Longrightarrow>
   proof_of_work_loop e lp lh p0 = Some (p0 + int n)"
proof (induction n arbitrary: p0)
  case 0
  then show ?case by (subst proof_of_work_loop.simps) simp
next
  case (Suc n)
  have nv: "\<not> validate e lp p0 lh default_difficulty"
    using Suc.prems(2) by simp
  have "proof_of_work_loop e lp lh (p0 + 1) = Some (p0 + 1 + int n)"
  proof (rule Suc.IH)
    show "validate e lp (p0 + 1 + int n) lh default_difficulty"
      using Suc.prems(1) by (simp add: algebra_simps)
    show "\<forall>q. p0 + 1 \<le> q \<and> q < p0 + 1 + int n \<longrightarrow> \<not> validate e lp q lh default_difficulty"
      using Suc.prems(2) by simp
  qed
  then show ?case
    using nv by (subst proof_of_work_loop.simps) (simp add: algebra_simps)
qed

lemma pow_loop_sound:
  assumes "proof_of_work_loop e lp lh p0 = Some p"
  shows "p0 \<le> p \<and> validate e lp p lh default_difficulty \<and>
         (\<forall>q. p0 \<le> q \<and> q < p \<longrightarrow> \<not> validate e lp q lh default_difficulty)"
proof (rule proof_of_work_loop.raw_induct
    [where P = "\<lambda>e lp lh p0 p. p0 \<le> p \<and> validate e lp p lh default_difficulty \<and>
         (\<forall>q. p0 \<le> q \<and> q < p \<longrightarrow> \<not> validate e lp q lh default_difficulty)", OF _ assms])
  fix f :: "env \<Rightarrow> int \<Rightarrow> string \<Rightarrow> int \<Rightarrow> int option" and e lp lh p0 p
  assume IH: "\<And>a b c d y. f a b c d = Some y \<Longrightarrow>
      d \<le> y \<and> validate a b y c default_difficulty \<and>
         (\<forall>q. d \<le> q \<and> q < y \<longrightarrow> \<not> validate a b q c default_difficulty)"
    and eq: "(if \<not> validate e lp p0 lh default_difficulty then f e lp lh (p0 + 1) else Some p0) = Some p"
  show "p0 \<le> p \<and> validate e lp p lh default_difficulty \<and>
         (\<forall>q. p0 \<le> q \<and> q < p \<longrightarrow> \<not> validate e lp q lh default_difficulty)"
  proof (cases "validate e lp p0 lh default_difficulty")
    case True
    then show ?thesis using eq by auto
  next
    case False
    then have "f e lp lh (p0 + 1) = Some p" using eq by simp
    from IH[OF this] have le: "p0 + 1 \<le> p"
      and v: "validate e lp p lh default_difficulty"
      and m: "\<forall>q. p0 + 1 \<le> q \<and> q < p \<longrightarrow> \<not> validate e lp q lh default_difficulty"
      by auto
    have "\<not> validate e lp q lh default_difficulty" if "p0 \<le> q \<and> q < p" for q
    proof (cases "q = p0")
      case True
      then show ?thesis using False by simp
    next
      case False
      then have "p0 + 1 \<le> q \<and> q < p" using that by linarith
      then show ?thesis using m by blast
    qed
    then show ?thesis using le v by auto
  qed
qed



lemma pow_char:
  "proof_of_work e b = Some p \<longleftrightarrow>
     0 \<le> p \<and> validate e (proof' b) p (hash e b) default_difficulty \<and>
     (\<forall>q. 0 \<le> q \<and> q < p \<longrightarrow> \<not> validate e (proof' b) q (hash e b) default_difficulty)"
  (is "?L \<longleftrightarrow> ?R")
proof
  assume ?L
  then have "proof_of_work_loop e (proof' b) (hash e b) 0 = Some p"
    by (simp add: proof_of_work_def Let_def)
  then show ?R by (rule pow_loop_sound)
next
  assume R: ?R
  have "proof_of_work_loop e (proof' b) (hash e b) 0 = Some (0 + int (nat p))"
  proof (rule pow_loop_found)
    show "validate e (proof' b) (0 + int (nat p)) (hash e b) default_difficulty"
      using R by simp
    show "\<forall>q. 0 \<le> q \<and> q < 0 + int (nat p) \<longrightarrow>
            \<not> validate e (proof' b) q (hash e b) default_difficulty"
      using R by simp
  qed
  moreover have "0 + int (nat p) = p" using R by simp
  ultimately show ?L
    by (simp add: proof_of_work_def Let_def)
qed


lemma pow_returns:
  assumes "0 \<le> k" "validate e (proof' b) k (hash e b) default_difficulty"
  shows "\<exists>p. proof_of_work e b = Some p \<and> p \<le> k"
proof -
  define V where "V = (\<lambda>n. validate e (proof' b) (int n) (hash e b) default_difficulty)"
  define m where "m = (LEAST n. V n)"
  have Vk: "V (nat k)" using assms by (simp add: V_def)
  have L: "V m" unfolding m_def using Vk by (rule LeastI)
  have M: "m \<le> nat k" unfolding m_def using Vk by (rule Least_le)
  have N: "\<not> V n" if "n < m" for n
    using that unfolding m_def by (rule not_less_Least)
  have "\<not> validate e (proof' b) q (hash e b) default_difficulty" if "0 \<le> q \<and> q < int m" for q
  proof -
    have "nat q < m" using that by linarith
    then have "\<not> V (nat q)" by (rule N)
    then show ?thesis using that by (simp add: V_def)
  qed
  then have "0 \<le> int m \<and> validate e (proof' b) (int m) (hash e b) default_difficulty \<and>
     (\<forall>q. 0 \<le> q \<and> q < int m \<longrightarrow> \<not> validate e (proof' b) q (hash e b) default_difficulty)"
    using L by (simp add: V_def)
  then have "proof_of_work e b = Some (int m)"
    by (rule pow_char [THEN iffD2])
  moreover have "int m \<le> k" using M assms(1) by linarith
  ultimately show ?thesis by blast
qed

text \<open>
  C4. The search starts at 0 and tries the successive integers, so what it
  returns is the least non-negative integer on which \<^verbatim>\<open>validate\<close> holds at
  the default difficulty, and nothing else; and it does return whenever some
  non-negative integer validates. Being a function of the block alone, it gives
  the same proof on an identical block.
\<close>

theorem proof_of_work_least:
  "(proof_of_work e b = Some p \<longleftrightarrow>
      0 \<le> p \<and> validate e (proof' b) p (hash e b) default_difficulty \<and>
      (\<forall>q. 0 \<le> q \<and> q < p \<longrightarrow> \<not> validate e (proof' b) q (hash e b) default_difficulty))
   \<and> (0 \<le> k \<and> validate e (proof' b) k (hash e b) default_difficulty
        \<longrightarrow> (\<exists>p'. proof_of_work e b = Some p' \<and> p' \<le> k))"
  using pow_char [of e b p] pow_returns [of k e b] by blast

theorem proof_of_work_least_witness:
  "proof_of_work demo_env demo_genesis = Some 3
   \<and> validate demo_env (proof' demo_genesis) 3 (hash demo_env demo_genesis) default_difficulty
   \<and> \<not> validate demo_env (proof' demo_genesis) 2 (hash demo_env demo_genesis) default_difficulty"
proof -
  have r: "proof_of_work demo_env demo_genesis = Some 3" by code_simp
  show ?thesis
    using proof_of_work_least [of demo_env demo_genesis 3 0, THEN conjunct1] r by simp
qed

section \<open>The object: mining, submitting, the constructor\<close>

lemma init_eq:
  "init e now = Inr \<lparr>heap = [[], []], current_transactions = 1,
       chain = [\<lparr>index = 1, timestamp = now, transactions = 0, proof' = 42,
                 previous_hash = ''secret''\<rparr>],
       nodes = {}\<rparr>"
  by (simp add: init_def add_block_def py_or_def Let_def)

lemma wf_init: "init e now = Inr s \<Longrightarrow> wf_state s"
  by (auto simp: init_eq wf_state_def)

lemma alloc_chain_fst: "fst (alloc_chain h chn) = h @ map transactions chn"
  by (induction chn arbitrary: h) (auto simp: split_beta Let_def)

lemma alloc_chain_length: "length (snd (alloc_chain h chn)) = length chn"
  by (induction chn arbitrary: h) (auto simp: split_beta Let_def)

lemma alloc_chain_nonempty: "chn \<noteq> [] \<Longrightarrow> snd (alloc_chain h chn) \<noteq> []"
  using alloc_chain_length [of h chn] by auto

lemma alloc_chain_refs:
  "b \<in> set (snd (alloc_chain h chn)) \<Longrightarrow>
   length h \<le> transactions b \<and> transactions b < length h + length chn"
proof (induction chn arbitrary: h)
  case Nil
  then show ?case by simp
next
  case (Cons c chn)
  then show ?case by (fastforce simp: split_beta Let_def)
qed

lemma alloc_chain_view:
  "map (deref (fst (alloc_chain h chn) @ t)) (snd (alloc_chain h chn)) = chn"
proof (induction chn arbitrary: h)
  case Nil
  then show ?case by simp
next
  case (Cons c chn)
  have "deref (fst (alloc_chain (h @ [transactions c]) chn) @ t)
           \<lparr>index = index c, timestamp = timestamp c, transactions = length h,
              proof' = proof' c, previous_hash = previous_hash c\<rparr> = c"
    by (simp add: deref_def alloc_chain_fst nth_append)
  then show ?case using Cons.IH [of "h @ [transactions c]"]
    by (simp add: split_beta Let_def)
qed

lemma new_transaction_state:
  "snd (new_transaction sndr rcpt amt s) =
     s\<lparr>heap := (heap s)[current_transactions s :=
        heap s ! current_transactions s @ [\<lparr>sender = sndr, recipient = rcpt, amount = amt\<rparr>]]\<rparr>"
  by (simp add: new_transaction_def Let_def split: sum.splits)

lemma add_block_cases:
  "add_block e now p ph s = (Inl IndexError, s) \<or>
   (\<exists>h. add_block e now p ph s =
      (Inr \<lparr>index = int (length (chain s)) + 1, timestamp = now,
             transactions = current_transactions s, proof' = p, previous_hash = h\<rparr>,
       s\<lparr>heap := heap s @ [[]], current_transactions := length (heap s),
         chain := chain s @ [\<lparr>index = int (length (chain s)) + 1, timestamp = now,
             transactions = current_transactions s, proof' = p, previous_hash = h\<rparr>]\<rparr>))"
  by (auto simp: add_block_def py_or_def Let_def split: option.splits list.splits)

lemma resolve_conflicts_cases:
  "snd (resolve_conflicts e get ns s) = s \<or>
   (\<exists>chn. chn \<noteq> [] \<and> snd (resolve_conflicts e get ns s) =
      s\<lparr>heap := fst (alloc_chain (heap s) chn), chain := snd (alloc_chain (heap s) chn)\<rparr>)"
  by (auto simp: resolve_conflicts_def split_beta Let_def split: sum.splits option.splits)

lemma register_node_state:
  "chain (snd (register_node e a s)) = chain s \<and> heap (snd (register_node e a s)) = heap s
   \<and> current_transactions (snd (register_node e a s)) = current_transactions s"
  by (simp add: register_node_def split: sum.splits)

lemma ledger_step:
  assumes "wf_state s" "ledger_op opn"
  shows "wf_state (apply_op e opn s) \<and> prefix (chain s) (chain (apply_op e opn s)) \<and>
         (\<forall>b \<in> set (chain s). heap (apply_op e opn s) ! transactions b = heap s ! transactions b)"
proof (cases opn)
  case (NewTransaction sndr rcpt amt)
  then show ?thesis using assms(1)
    by (auto simp: new_transaction_state wf_state_def)
next
  case (AddBlock now p ph)
  from add_block_cases [of e now p ph s] show ?thesis
  proof
    assume "add_block e now p ph s = (Inl IndexError, s)"
    then show ?thesis using assms(1) AddBlock by simp
  next
    assume "\<exists>h. add_block e now p ph s =
      (Inr \<lparr>index = int (length (chain s)) + 1, timestamp = now,
             transactions = current_transactions s, proof' = p, previous_hash = h\<rparr>,
       s\<lparr>heap := heap s @ [[]], current_transactions := length (heap s),
         chain := chain s @ [\<lparr>index = int (length (chain s)) + 1, timestamp = now,
             transactions = current_transactions s, proof' = p, previous_hash = h\<rparr>]\<rparr>)"
    then obtain h where st: "apply_op e opn s =
       s\<lparr>heap := heap s @ [[]], current_transactions := length (heap s),
         chain := chain s @ [\<lparr>index = int (length (chain s)) + 1, timestamp = now,
             transactions = current_transactions s, proof' = p, previous_hash = h\<rparr>]\<rparr>"
      using AddBlock by auto
    have pool: "current_transactions s < length (heap s)"
      and blocks: "\<And>b. b \<in> set (chain s) \<Longrightarrow>
           transactions b < length (heap s) \<and> transactions b \<noteq> current_transactions s"
      using assms(1) by (auto simp: wf_state_def)
    have "wf_state (apply_op e opn s)"
      unfolding st wf_state_def using pool blocks by (fastforce simp: less_Suc_eq)
    moreover have "prefix (chain s) (chain (apply_op e opn s))"
      unfolding st by simp
    moreover have "\<forall>b \<in> set (chain s).
        heap (apply_op e opn s) ! transactions b = heap s ! transactions b"
      unfolding st using blocks by (simp add: nth_append)
    ultimately show ?thesis by blast
  qed
next
  case (RegisterNode a)
  then show ?thesis using assms(2) by simp
next
  case (ResolveConflicts get ns)
  then show ?thesis using assms(2) by simp
qed

lemma wf_apply_op:
  assumes "wf_state s"
  shows "wf_state (apply_op e opn s)"
proof (cases opn)
  case (NewTransaction sndr rcpt amt)
  then show ?thesis using ledger_step [OF assms, of opn e] by simp
next
  case (AddBlock now p ph)
  then show ?thesis using ledger_step [OF assms, of opn e] by simp
next
  case (RegisterNode a)
  then show ?thesis using assms register_node_state [of e a s]
    by (simp add: wf_state_def)
next
  case (ResolveConflicts get ns)
  from resolve_conflicts_cases [of e get ns s] show ?thesis
  proof
    assume "snd (resolve_conflicts e get ns s) = s"
    then show ?thesis using assms ResolveConflicts by simp
  next
    assume "\<exists>chn. chn \<noteq> [] \<and> snd (resolve_conflicts e get ns s) =
      s\<lparr>heap := fst (alloc_chain (heap s) chn), chain := snd (alloc_chain (heap s) chn)\<rparr>"
    then obtain chn where st: "snd (resolve_conflicts e get ns s) =
      s\<lparr>heap := fst (alloc_chain (heap s) chn), chain := snd (alloc_chain (heap s) chn)\<rparr>"
      by blast
    show ?thesis using assms alloc_chain_refs [of _ "heap s" chn]
      by (fastforce simp: ResolveConflicts st wf_state_def alloc_chain_fst)
  qed
qed

lemma nonempty_apply_op:
  assumes "chain s \<noteq> []"
  shows "chain (apply_op e opn s) \<noteq> []"
proof (cases opn)
  case (NewTransaction sndr rcpt amt)
  then show ?thesis using assms by (simp add: new_transaction_state)
next
  case (AddBlock now p ph)
  then show ?thesis using assms add_block_cases [of e now p ph s] by auto
next
  case (RegisterNode a)
  then show ?thesis using assms register_node_state [of e a s] by simp
next
  case (ResolveConflicts get ns)
  then show ?thesis using assms resolve_conflicts_cases [of e get ns s]
    by (auto simp: alloc_chain_nonempty)
qed

lemma wf_run: "wf_state s \<Longrightarrow> wf_state (run e ops s)"
  unfolding run_def by (induction ops arbitrary: s) (simp_all add: wf_apply_op)

lemma nonempty_run: "chain s \<noteq> [] \<Longrightarrow> chain (run e ops s) \<noteq> []"
  unfolding run_def by (induction ops arbitrary: s) (simp_all add: nonempty_apply_op)

lemma ledger_run:
  "wf_state s \<Longrightarrow> list_all ledger_op ops \<Longrightarrow>
   prefix (chain s) (chain (run e ops s)) \<and>
   (\<forall>b \<in> set (chain s). heap (run e ops s) ! transactions b = heap s ! transactions b)"
proof (induction ops arbitrary: s)
  case Nil
  then show ?case by (simp add: run_def)
next
  case (Cons opn ops)
  let ?s1 = "apply_op e opn s"
  have st: "wf_state ?s1" "prefix (chain s) (chain ?s1)"
    "\<forall>b \<in> set (chain s). heap ?s1 ! transactions b = heap s ! transactions b"
    using ledger_step [of s opn e] Cons.prems by auto
  have IH: "prefix (chain ?s1) (chain (run e ops ?s1))"
    "\<forall>b \<in> set (chain ?s1). heap (run e ops ?s1) ! transactions b = heap ?s1 ! transactions b"
    using Cons.IH [OF st(1)] Cons.prems(2) by auto
  have sub: "set (chain s) \<subseteq> set (chain ?s1)"
    using st(2) by (rule set_mono_prefix)
  have r: "run e (opn # ops) s = run e ops ?s1" by (simp add: run_def)
  show ?case unfolding r
    using st(2,3) IH sub by (auto intro: prefix_order.trans)
qed

lemma add_block_wf:
  assumes "wf_state s" "chain s \<noteq> []"
  shows "\<exists>b s'. add_block e now p ph s = (Inr b, s') \<and>
     chain s' = chain s @ [b] \<and>
     index b = int (length (chain s)) + 1 \<and> timestamp b = now \<and> proof' b = p \<and>
     previous_hash b =
       (case ph of None \<Rightarrow> hash e (last (chain_view s))
        | Some h \<Rightarrow> if h = [] then hash e (last (chain_view s)) else h) \<and>
     chain_view s' = chain_view s @ [deref (heap s') b] \<and>
     transactions (deref (heap s') b) = pool_view s \<and>
     pool_view s' = [] \<and> nodes s' = nodes s \<and> wf_state s'"
proof -
  define ph' where "ph' = (case ph of None \<Rightarrow> hash e (last (chain_view s))
        | Some h \<Rightarrow> if h = [] then hash e (last (chain_view s)) else h)"
  define b where "b = \<lparr>index = int (length (chain s)) + 1, timestamp = now,
       transactions = current_transactions s, proof' = p, previous_hash = ph'\<rparr>"
  define s' where "s' = s\<lparr>heap := heap s @ [[]], current_transactions := length (heap s),
                 chain := chain s @ [b]\<rparr>"
  have lv: "last (chain_view s) = deref (heap s) (last (chain s))"
    using assms(2) by (simp add: chain_view_def last_map)
  have eq: "add_block e now p ph s = (Inr b, s')"
    using assms(2)
    by (cases "chain s")
       (auto simp: add_block_def py_or_def Let_def b_def s'_def ph'_def lv split: option.splits)
  have pool: "current_transactions s < length (heap s)"
    and blocks: "\<And>c. c \<in> set (chain s) \<Longrightarrow>
           transactions c < length (heap s) \<and> transactions c \<noteq> current_transactions s"
    using assms(1) by (auto simp: wf_state_def)
  have view: "map (deref (heap s @ [[]])) (chain s) = map (deref (heap s)) (chain s)"
    using blocks by (simp add: deref_def nth_append)
  have "chain_view s' = chain_view s @ [deref (heap s') b]"
    by (simp add: chain_view_def s'_def view)
  moreover have "transactions (deref (heap s') b) = pool_view s"
    using pool by (simp add: deref_def s'_def b_def pool_view_def nth_append)
  moreover have "pool_view s' = []"
    by (simp add: pool_view_def s'_def)
  moreover have "wf_state s'"
    unfolding wf_state_def s'_def b_def using pool blocks by (fastforce simp: less_Suc_eq)
  ultimately show ?thesis
    using eq by (simp add: b_def s'_def ph'_def)
qed

lemma last_block_nonempty: "chain s \<noteq> [] \<Longrightarrow> last_block s = Inr (last (chain s))"
  by (cases "chain s") (simp_all add: last_block_def)

lemma ledger_run_take:
  assumes "wf_state s" "list_all ledger_op ops"
  shows "take (length (chain s)) (chain (run e ops s)) = chain s"
    and "take (length (chain s)) (chain_view (run e ops s)) = chain_view s"
proof -
  from ledger_run [OF assms, of e]
  have pre: "prefix (chain s) (chain (run e ops s))"
    and hp: "\<And>b. b \<in> set (chain s) \<Longrightarrow>
               heap (run e ops s) ! transactions b = heap s ! transactions b"
    by auto
  from pre obtain bs where bs: "chain (run e ops s) = chain s @ bs"
    by (auto simp: prefix_def)
  show t: "take (length (chain s)) (chain (run e ops s)) = chain s"
    by (simp add: bs)
  have "take (length (chain s)) (chain_view (run e ops s)) =
          map (deref (heap (run e ops s))) (chain s)"
    by (simp add: chain_view_def take_map t)
  also have "\<dots> = map (deref (heap s)) (chain s)"
    using hp by (simp add: deref_def)
  finally show "take (length (chain s)) (chain_view (run e ops s)) = chain_view s"
    by (simp add: chain_view_def)
qed

text \<open>
  C6, as the code has it. In a state whose references are in order and whose
  chain is not empty, \<^verbatim>\<open>add_block\<close> returns a block and appends exactly that
  block: its index is the length of the chain plus one, its proof the given
  one, its transfers the whole pool as it was at the call, and its
  \<^verbatim>\<open>previous_hash\<close> the given string when that is a non-empty string, otherwise
  (nothing given, or the empty string) the digest of the block that was last.
  Afterwards the pool is empty, whatever it held.
\<close>

theorem add_block_appends_pool:
  "wf_state s \<Longrightarrow> chain s \<noteq> [] \<Longrightarrow>
   \<exists>b s'. add_block e now p ph s = (Inr b, s') \<and>
     chain s' = chain s @ [b] \<and>
     index b = int (length (chain s)) + 1 \<and> timestamp b = now \<and> proof' b = p \<and>
     previous_hash b =
       (case ph of None \<Rightarrow> hash e (last (chain_view s))
        | Some h \<Rightarrow> if h = [] then hash e (last (chain_view s)) else h) \<and>
     chain_view s' = chain_view s @ [deref (heap s') b] \<and>
     transactions (deref (heap s') b) = pool_view s \<and>
     pool_view s' = [] \<and> nodes s' = nodes s \<and> wf_state s'"
  by (rule add_block_wf)

text \<open>
  C8. The constructor returns a state whose chain is one block with index 1,
  and after any sequence of calls of the four mutating methods the references
  are in order, the chain is not empty and \<^verbatim>\<open>last_block\<close> returns its last
  element: it never raises \<^verbatim>\<open>IndexError\<close>.
\<close>

theorem init_genesis_last_block:
  "\<exists>s0 g. init e now = Inr s0 \<and> chain s0 = [g] \<and> index g = 1 \<and>
     (\<forall>ops. wf_state (run e ops s0) \<and> chain (run e ops s0) \<noteq> [] \<and>
            last_block (run e ops s0) = Inr (last (chain (run e ops s0))))"
proof -
  obtain s0 where s0: "init e now = Inr s0"
    and g: "chain s0 = [\<lparr>index = 1, timestamp = now, transactions = 0, proof' = 42,
                 previous_hash = ''secret''\<rparr>]"
    using init_eq [of e now] by simp
  have wf: "wf_state s0" using s0 by (rule wf_init)
  have ne: "chain s0 \<noteq> []" using g by simp
  have "wf_state (run e ops s0) \<and> chain (run e ops s0) \<noteq> [] \<and>
            last_block (run e ops s0) = Inr (last (chain (run e ops s0)))" for ops
    using wf_run [OF wf, of e ops] nonempty_run [OF ne, of e ops]
    by (simp add: last_block_nonempty)
  then show ?thesis using s0 g by auto
qed

theorem init_genesis_last_block_witness:
  "init demo_env 0 = Inr demo_state \<and>
   index (hd (chain demo_state)) = 1 \<and>
   wf_state (run demo_env demo_ops demo_state) \<and>
   last_block (run demo_env demo_ops demo_state) =
     Inr \<lparr>index = 2, timestamp = 9, transactions = 1, proof' = 1, previous_hash = ''x''\<rparr>"
proof -
  have i: "init demo_env 0 = Inr demo_state"
    by (simp add: init_eq demo_state_def)
  from init_genesis_last_block [of demo_env 0]
  obtain s0 g where s0: "init demo_env 0 = Inr s0"
    and a: "\<forall>ops. wf_state (run demo_env ops s0) \<and> chain (run demo_env ops s0) \<noteq> [] \<and>
            last_block (run demo_env ops s0) = Inr (last (chain (run demo_env ops s0)))"
    by blast
  have e: "s0 = demo_state" using s0 i by simp
  have c: "chain (run demo_env demo_ops demo_state) =
     [\<lparr>index = 1, timestamp = 0, transactions = 0, proof' = 42, previous_hash = ''secret''\<rparr>,
      \<lparr>index = 2, timestamp = 9, transactions = 1, proof' = 1, previous_hash = ''x''\<rparr>]"
    by (simp add: run_def demo_ops_def new_transaction_state add_block_def py_or_def
        demo_state_def Let_def)
  show ?thesis
    using a [rule_format, of demo_ops] i
    by (simp add: e c) (simp add: demo_state_def)
qed

text \<open>
  C9. Submitting transfers and mining, in any number and order, leave the
  blocks already in the chain where they are and as they are, the contents of
  their transfer lists included: the chain only grows at its end. In particular
  the block that \<^verbatim>\<open>add_block\<close> appends keeps the transfers that were in the pool
  when it was mined, although it holds the very list object that was the pool,
  because the pool attribute is bound to a new list at once.
\<close>

theorem appended_blocks_unchanged:
  assumes "wf_state s" "list_all ledger_op ops"
  shows "take (length (chain s)) (chain (run e ops s)) = chain s \<and>
         take (length (chain s)) (chain_view (run e ops s)) = chain_view s \<and>
         (chain s \<noteq> [] \<longrightarrow>
            transactions (chain_view (run e ops (snd (add_block e now p ph s))) ! length (chain s))
              = pool_view s)"
proof (intro conjI impI)
  show "take (length (chain s)) (chain (run e ops s)) = chain s"
    using assms by (rule ledger_run_take(1))
  show "take (length (chain s)) (chain_view (run e ops s)) = chain_view s"
    using assms by (rule ledger_run_take(2))
next
  assume ne: "chain s \<noteq> []"
  from add_block_wf [OF assms(1) ne, of e now p ph]
  obtain b s' where ab: "add_block e now p ph s = (Inr b, s')"
    and ch: "chain s' = chain s @ [b]"
    and cv: "chain_view s' = chain_view s @ [deref (heap s') b]"
    and tx: "transactions (deref (heap s') b) = pool_view s"
    and wf': "wf_state s'"
    by blast
  have "take (length (chain s')) (chain_view (run e ops s')) = chain_view s'"
    using wf' assms(2) by (rule ledger_run_take(2))
  then have "take (Suc (length (chain s))) (chain_view (run e ops s')) ! length (chain s)
               = (chain_view s @ [deref (heap s') b]) ! length (chain s)"
    by (simp add: ch cv)
  then have "chain_view (run e ops s') ! length (chain s) = deref (heap s') b"
    by (simp add: nth_append chain_view_def)
  then show "transactions (chain_view (run e ops (snd (add_block e now p ph s))) ! length (chain s))
              = pool_view s"
    using tx by (simp add: ab)
qed

lemma demo_state_wf: "wf_state demo_state \<and> chain demo_state \<noteq> []"
  by (simp add: wf_state_def demo_state_def)

lemma demo_state1_wf:
  "wf_state (snd (new_transaction ''0'' ''n1'' 20 demo_state)) \<and>
   chain (snd (new_transaction ''0'' ''n1'' 20 demo_state)) \<noteq> []"
  by (simp add: new_transaction_state wf_state_def demo_state_def)

lemma demo_add_block:
  "add_block demo_env 5 3 None (snd (new_transaction ''0'' ''n1'' 20 demo_state)) =
     (Inr \<lparr>index = 2, timestamp = 5, transactions = 1, proof' = 3, previous_hash = ''0f14''\<rparr>,
      \<lparr>heap = [[], [\<lparr>sender = ''0'', recipient = ''n1'', amount = 20\<rparr>], []],
       current_transactions = 2,
       chain = [\<lparr>index = 1, timestamp = 0, transactions = 0, proof' = 42,
                  previous_hash = ''secret''\<rparr>,
                \<lparr>index = 2, timestamp = 5, transactions = 1, proof' = 3,
                  previous_hash = ''0f14''\<rparr>],
       nodes = {}\<rparr>)"
proof -
  have h: "hash demo_env demo_genesis = ''0f14''" by code_simp
  show ?thesis
    using h
    by (simp add: new_transaction_state add_block_def py_or_def demo_state_def deref_def
        demo_genesis_def Let_def)
qed

theorem add_block_appends_pool_witness:
  "wf_state (snd (new_transaction ''0'' ''n1'' 20 demo_state)) \<and>
   chain (snd (new_transaction ''0'' ''n1'' 20 demo_state)) \<noteq> [] \<and>
   fst (add_block demo_env 5 3 None (snd (new_transaction ''0'' ''n1'' 20 demo_state))) =
     Inr \<lparr>index = 2, timestamp = 5, transactions = 1, proof' = 3, previous_hash = ''0f14''\<rparr> \<and>
   chain_view (snd (add_block demo_env 5 3 None (snd (new_transaction ''0'' ''n1'' 20 demo_state))))
     = [demo_genesis, demo_block2] \<and>
   pool_view (snd (add_block demo_env 5 3 None (snd (new_transaction ''0'' ''n1'' 20 demo_state))))
     = []"
  using add_block_appends_pool [of "snd (new_transaction ''0'' ''n1'' 20 demo_state)" demo_env 5 3 None]
    demo_state1_wf
  by (simp add: demo_add_block chain_view_def pool_view_def deref_def demo_genesis_def
      demo_block2_def)

text \<open>
  C6 as the specification words it promises the given \<^verbatim>\<open>previousHash\<close> whenever
  one is supplied. Given the empty string, the block carries the digest of the
  last block instead, since \<^verbatim>\<open>or\<close> takes the empty string for false.
\<close>

theorem add_block_empty_hash_counterexample:
  "fst (add_block demo_env 5 3 (Some []) demo_state) =
     Inr \<lparr>index = 2, timestamp = 5, transactions = 1, proof' = 3, previous_hash = ''0f14''\<rparr>"
proof -
  have h: "hash demo_env demo_genesis = ''0f14''" by code_simp
  show ?thesis
    using h
    by (simp add: add_block_def py_or_def demo_state_def deref_def demo_genesis_def Let_def)
qed

theorem appended_blocks_unchanged_witness:
  "wf_state demo_state \<and> list_all ledger_op demo_ops \<and>
   take 1 (chain_view (run demo_env demo_ops demo_state)) = [demo_genesis] \<and>
   chain_view demo_state = [demo_genesis] \<and>
   transactions (chain_view (run demo_env demo_ops demo_state) ! 1) =
     [\<lparr>sender = ''a'', recipient = ''b'', amount = 10\<rparr>]"
proof -
  have r: "chain_view (run demo_env demo_ops demo_state) =
     [demo_genesis, \<lparr>index = 2, timestamp = 9,
         transactions = [\<lparr>sender = ''a'', recipient = ''b'', amount = 10\<rparr>], proof' = 1,
         previous_hash = ''x''\<rparr>]"
    by (simp add: run_def demo_ops_def new_transaction_state add_block_def py_or_def
        demo_state_def chain_view_def deref_def demo_genesis_def Let_def)
  have l: "list_all ledger_op demo_ops" by (simp add: demo_ops_def)
  have v: "chain_view demo_state = [demo_genesis]"
    by (simp add: chain_view_def demo_state_def deref_def demo_genesis_def)
  show ?thesis
    using appended_blocks_unchanged [of demo_state demo_ops demo_env 0 0 None]
      demo_state_wf l
    by (simp add: r v)
qed

section \<open>\<^verbatim>\<open>register_node\<close>\<close>

lemma urlparse_http: "py_urlparse ''http://10.0.0.5:5000'' =
   Inr \<lparr>scheme = ''http'', netloc = ''10.0.0.5:5000'', path = [], params = [],
        query = [], fragment = []\<rparr>"
  by code_simp

lemma urlparse_notaurl: "py_urlparse ''notaurl'' =
   Inr \<lparr>scheme = [], netloc = [], path = ''notaurl'', params = [], query = [], fragment = []\<rparr>"
  by code_simp

lemma urlparse_empty: "py_urlparse [] =
   Inr \<lparr>scheme = [], netloc = [], path = [], params = [], query = [], fragment = []\<rparr>"
  by code_simp

lemma register_node_char:
  "(urlparse e address = Inl err \<longrightarrow> register_node e address s = (Inl err, s)) \<and>
   (urlparse e address = Inr u \<longrightarrow>
      (netloc u \<noteq> [] \<longrightarrow>
         register_node e address s = (Inr (), s\<lparr>nodes := insert (netloc u) (nodes s)\<rparr>)) \<and>
      (netloc u = [] \<and> path u \<noteq> [] \<longrightarrow>
         register_node e address s = (Inr (), s\<lparr>nodes := insert (path u) (nodes s)\<rparr>)) \<and>
      (netloc u = [] \<and> path u = [] \<longrightarrow>
         register_node e address s = (Inl ValueError, s)))"
  by (simp add: register_node_def)

lemma register_node_idem:
  "snd (register_node e address (snd (register_node e address s))) =
   snd (register_node e address s)"
  by (simp add: register_node_def split: sum.splits)

text \<open>
  C7, as the code has it. \<^verbatim>\<open>register_node\<close> adds the network location of the
  parsed address when there is one, otherwise its path when that is not empty,
  and raises \<^verbatim>\<open>ValueError\<close> exactly when the parser raises or both are empty; the
  peers form a set, so registering an address twice is registering it once. So
  \<^verbatim>\<open>http://10.0.0.5:5000\<close> is stored as \<^verbatim>\<open>10.0.0.5:5000\<close>; the string
  \<^verbatim>\<open>notaurl\<close> has no network location but is itself the path, and is stored as
  \<^verbatim>\<open>notaurl\<close>; the empty string is an address that raises.
\<close>

theorem register_node_stores:
  "(urlparse e address = Inl err \<longrightarrow> register_node e address s = (Inl err, s)) \<and>
   (urlparse e address = Inr u \<longrightarrow>
      (netloc u \<noteq> [] \<longrightarrow>
         register_node e address s = (Inr (), s\<lparr>nodes := insert (netloc u) (nodes s)\<rparr>)) \<and>
      (netloc u = [] \<and> path u \<noteq> [] \<longrightarrow>
         register_node e address s = (Inr (), s\<lparr>nodes := insert (path u) (nodes s)\<rparr>)) \<and>
      (netloc u = [] \<and> path u = [] \<longrightarrow>
         register_node e address s = (Inl ValueError, s))) \<and>
   snd (register_node e address (snd (register_node e address s))) =
     snd (register_node e address s) \<and>
   register_node demo_env ''http://10.0.0.5:5000'' s =
     (Inr (), s\<lparr>nodes := insert ''10.0.0.5:5000'' (nodes s)\<rparr>) \<and>
   register_node demo_env ''notaurl'' s = (Inr (), s\<lparr>nodes := insert ''notaurl'' (nodes s)\<rparr>) \<and>
   register_node demo_env [] s = (Inl ValueError, s)"
proof (intro conjI)
  show "register_node demo_env ''http://10.0.0.5:5000'' s =
     (Inr (), s\<lparr>nodes := insert ''10.0.0.5:5000'' (nodes s)\<rparr>)"
    by (simp add: register_node_def demo_env_def urlparse_http)
  show "register_node demo_env ''notaurl'' s =
      (Inr (), s\<lparr>nodes := insert ''notaurl'' (nodes s)\<rparr>)"
    by (simp add: register_node_def demo_env_def urlparse_notaurl)
  show "register_node demo_env [] s = (Inl ValueError, s)"
    by (simp add: register_node_def demo_env_def urlparse_empty)
qed (use register_node_char [of e address err s u] register_node_idem [of e address s] in simp_all)

theorem register_node_stores_witness:
  "urlparse demo_env ''//h/p'' =
     Inr \<lparr>scheme = [], netloc = ''h'', path = ''/p'', params = [], query = [], fragment = []\<rparr> \<and>
   nodes (snd (register_node demo_env ''//h/p'' demo_state)) = {''h''} \<and>
   urlparse demo_env ''http://['' = Inl ValueError \<and>
   register_node demo_env ''http://['' demo_state = (Inl ValueError, demo_state)"
proof -
  have a: "urlparse demo_env ''//h/p'' =
     Inr \<lparr>scheme = [], netloc = ''h'', path = ''/p'', params = [], query = [], fragment = []\<rparr>"
    by code_simp
  have b: "urlparse demo_env ''http://['' = Inl ValueError" by code_simp
  show ?thesis
    using register_node_stores [of demo_env "''//h/p''" ValueError demo_state
        "\<lparr>scheme = [], netloc = ''h'', path = ''/p'', params = [], query = [], fragment = []\<rparr>"]
      register_node_stores [of demo_env "''http://[''" ValueError demo_state]
      a b
    by (simp add: demo_state_def)
qed

text \<open>
  C7 as the specification words it has \<^verbatim>\<open>notaurl\<close> rejected. It is accepted and
  becomes a peer.
\<close>

theorem register_node_notaurl_counterexample:
  "register_node demo_env ''notaurl'' demo_state =
     (Inr (), demo_state\<lparr>nodes := {''notaurl''}\<rparr>)"
  by (simp add: register_node_def demo_env_def urlparse_notaurl demo_state_def)

section \<open>\<^verbatim>\<open>resolve_conflicts\<close>\<close>

lemma peer_eligible_length: "peer_eligible e get m n \<Longrightarrow> m < peer_length get n"
  by (auto simp: peer_eligible_def peer_length_def eligible_def split: sum.splits)

lemma peer_eligible_mono:
  "peer_eligible e get m n \<Longrightarrow> m' < peer_length get n \<Longrightarrow> peer_eligible e get m' n"
  by (auto simp: peer_eligible_def peer_length_def eligible_def split: sum.splits)

lemma peer_ok_mono: "peer_ok get m n \<Longrightarrow> m \<le> m' \<Longrightarrow> peer_ok get m' n"
  by (auto simp: peer_ok_def split: sum.splits)

lemma resolve_loop_Cons:
  assumes "peer_ok get m node"
  shows "resolve_loop e get (node # rest) nc m =
     (if peer_eligible e get m node
      then resolve_loop e get rest (Some (peer_chain get node)) (peer_length get node)
      else resolve_loop e get rest nc m)"
proof -
  from assms obtain rsp where rsp: "get (''http://'' @ node @ ''/chain'') = Inr rsp"
    and ne: "\<not> (status_code rsp = 200 \<and> json_length rsp > m \<and> json_chain rsp = [])"
    by (auto simp: peer_ok_def answer_def split: sum.splits)
  show ?thesis
  proof (cases "status_code rsp = 200 \<and> json_length rsp > m")
    case True
    then have "json_chain rsp \<noteq> []" using ne by blast
    then obtain ok where ok: "valid_chain e (json_chain rsp) = Inr ok"
      by (simp add: valid_chain_char)
    show ?thesis
      using True rsp ok
      by (simp add: peer_eligible_def peer_chain_def peer_length_def answer_def eligible_def
          Let_def)
  next
    case False
    then show ?thesis
      using rsp
      by (auto simp: peer_eligible_def answer_def eligible_def Let_def)
  qed
qed

lemma resolve_loop_char:
  assumes "\<forall>n \<in> set ns. peer_ok get m n"
  shows "\<exists>nc' m'. resolve_loop e get ns nc m = Inr (nc', m') \<and>
     (if \<exists>n \<in> set ns. peer_eligible e get m n
      then \<exists>n \<in> set ns. peer_eligible e get m n \<and> nc' = Some (peer_chain get n) \<and>
             m' = peer_length get n \<and>
             (\<forall>n' \<in> set ns. peer_eligible e get m n' \<longrightarrow> peer_length get n' \<le> m')
      else nc' = nc \<and> m' = m)"
  using assms
proof (induction ns arbitrary: nc m)
  case Nil
  then show ?case by simp
next
  case (Cons node rest)
  have ok: "peer_ok get m node" and oks: "\<forall>n \<in> set rest. peer_ok get m n"
    using Cons.prems by auto
  show ?case
  proof (cases "peer_eligible e get m node")
    case False
    have step: "resolve_loop e get (node # rest) nc m = resolve_loop e get rest nc m"
      using resolve_loop_Cons [OF ok] False by simp
    have ex: "(\<exists>n \<in> set (node # rest). peer_eligible e get m n) \<longleftrightarrow>
              (\<exists>n \<in> set rest. peer_eligible e get m n)"
      using False by auto
    from Cons.IH [OF oks, of nc] obtain nc' m' where
      r: "resolve_loop e get rest nc m = Inr (nc', m')" and
      c: "if \<exists>n \<in> set rest. peer_eligible e get m n
          then \<exists>n \<in> set rest. peer_eligible e get m n \<and> nc' = Some (peer_chain get n) \<and>
             m' = peer_length get n \<and>
             (\<forall>n' \<in> set rest. peer_eligible e get m n' \<longrightarrow> peer_length get n' \<le> m')
          else nc' = nc \<and> m' = m"
      by blast
    show ?thesis
    proof (cases "\<exists>n \<in> set rest. peer_eligible e get m n")
      case True
      with c obtain n where n: "n \<in> set rest" "peer_eligible e get m n"
        "nc' = Some (peer_chain get n)" "m' = peer_length get n"
        "\<forall>n' \<in> set rest. peer_eligible e get m n' \<longrightarrow> peer_length get n' \<le> m'"
        by auto
      have "\<forall>n' \<in> set (node # rest). peer_eligible e get m n' \<longrightarrow> peer_length get n' \<le> m'"
        using n(5) False by auto
      then show ?thesis
        unfolding step r using True n(1-4) by auto
    next
      case F: False
      then show ?thesis unfolding step r using c False by auto
    qed
  next
    case True
    define m1 where "m1 = peer_length get node"
    have lt: "m < m1" unfolding m1_def using True by (rule peer_eligible_length)
    have step: "resolve_loop e get (node # rest) nc m =
                resolve_loop e get rest (Some (peer_chain get node)) m1"
      using resolve_loop_Cons [OF ok] True by (simp add: m1_def)
    have oks1: "\<forall>n \<in> set rest. peer_ok get m1 n"
      using oks lt by (auto intro: peer_ok_mono)
    from Cons.IH [OF oks1, of "Some (peer_chain get node)"] obtain nc' m' where
      r: "resolve_loop e get rest (Some (peer_chain get node)) m1 = Inr (nc', m')" and
      c: "if \<exists>n \<in> set rest. peer_eligible e get m1 n
          then \<exists>n \<in> set rest. peer_eligible e get m1 n \<and> nc' = Some (peer_chain get n) \<and>
             m' = peer_length get n \<and>
             (\<forall>n' \<in> set rest. peer_eligible e get m1 n' \<longrightarrow> peer_length get n' \<le> m')
          else nc' = Some (peer_chain get node) \<and> m' = m1"
      by blast
    have ex: "\<exists>n \<in> set (node # rest). peer_eligible e get m n" using True by auto
    show ?thesis
    proof (cases "\<exists>n \<in> set rest. peer_eligible e get m1 n")
      case T1: True
      with c obtain n where n: "n \<in> set rest" "peer_eligible e get m1 n"
        "nc' = Some (peer_chain get n)" "m' = peer_length get n"
        "\<forall>n' \<in> set rest. peer_eligible e get m1 n' \<longrightarrow> peer_length get n' \<le> m'"
        by auto
      have big: "m1 < m'" unfolding n(4) using n(2) by (rule peer_eligible_length)
      have "m < peer_length get n" using big lt unfolding n(4) by simp
      with n(2) have el: "peer_eligible e get m n" by (rule peer_eligible_mono)
      have mx: "peer_length get n' \<le> m'" if "n' \<in> set (node # rest)" "peer_eligible e get m n'" for n'
      proof (cases "m1 < peer_length get n'")
        case True
        with that(2) have e1: "peer_eligible e get m1 n'" by (rule peer_eligible_mono)
        show ?thesis
        proof (cases "n' \<in> set rest")
          case True
          then show ?thesis using n(5) e1 by blast
        next
          case False
          then have "n' = node" using that(1) by simp
          then show ?thesis using \<open>m1 < peer_length get n'\<close> by (simp add: m1_def)
        qed
      next
        case False
        then show ?thesis using big by linarith
      qed
      show ?thesis
        unfolding step r using ex n(1,3,4) el mx by auto
    next
      case F1: False
      then have nc': "nc' = Some (peer_chain get node)" and m': "m' = m1" using c by auto
      have mx: "peer_length get n' \<le> m'" if "n' \<in> set (node # rest)" "peer_eligible e get m n'" for n'
      proof (cases "n' \<in> set rest")
        case True
        show ?thesis
        proof (rule ccontr)
          assume "\<not> peer_length get n' \<le> m'"
          then have "m1 < peer_length get n'" using m' by simp
          with that(2) have "peer_eligible e get m1 n'" by (rule peer_eligible_mono)
          then show False using F1 True by blast
        qed
      next
        case False
        then have "n' = node" using that(1) by simp
        then show ?thesis by (simp add: m' m1_def)
      qed
      show ?thesis
        unfolding step r using ex True nc' m' mx by (auto simp: m1_def)
    qed
  qed
qed


lemma peer_eligible_nonempty: "peer_eligible e get m n \<Longrightarrow> peer_chain get n \<noteq> []"
  by (auto simp: peer_eligible_def peer_chain_def eligible_def valid_chain_def split: sum.splits)

lemma resolve_conflicts_char:
  assumes "\<forall>n \<in> set neighbors. peer_ok get (int (length (chain s))) n"
  shows "\<exists>b s'. resolve_conflicts e get neighbors s = (Inr b, s') \<and>
     (b \<longleftrightarrow> (\<exists>n \<in> set neighbors. peer_eligible e get (int (length (chain s))) n)) \<and>
     (\<not> b \<longrightarrow> s' = s) \<and>
     (b \<longrightarrow> (\<exists>n \<in> set neighbors. peer_eligible e get (int (length (chain s))) n \<and>
                chain_view s' = peer_chain get n \<and>
                (\<forall>n' \<in> set neighbors. peer_eligible e get (int (length (chain s))) n' \<longrightarrow>
                     peer_length get n' \<le> peer_length get n)) \<and>
            current_transactions s' = current_transactions s \<and> nodes s' = nodes s)"
proof -
  let ?m = "int (length (chain s))"
  from resolve_loop_char [OF assms, of e None] obtain nc' m' where
    r: "resolve_loop e get neighbors None ?m = Inr (nc', m')" and
    c: "if \<exists>n \<in> set neighbors. peer_eligible e get ?m n
        then \<exists>n \<in> set neighbors. peer_eligible e get ?m n \<and> nc' = Some (peer_chain get n) \<and>
             m' = peer_length get n \<and>
             (\<forall>n' \<in> set neighbors. peer_eligible e get ?m n' \<longrightarrow> peer_length get n' \<le> m')
        else nc' = None \<and> m' = ?m"
    by blast
  show ?thesis
  proof (cases "\<exists>n \<in> set neighbors. peer_eligible e get ?m n")
    case False
    then have "nc' = None" using c by simp
    then have "resolve_conflicts e get neighbors s = (Inr False, s)"
      by (simp add: resolve_conflicts_def r)
    then show ?thesis using False
      by (intro exI [of _ False] exI [of _ s]) simp
  next
    case True
    with c obtain n where n: "n \<in> set neighbors" "peer_eligible e get ?m n"
      "nc' = Some (peer_chain get n)" "m' = peer_length get n"
      "\<forall>n' \<in> set neighbors. peer_eligible e get ?m n' \<longrightarrow> peer_length get n' \<le> m'"
      by auto
    have ne: "peer_chain get n \<noteq> []" using n(2) by (rule peer_eligible_nonempty)
    define s' where "s' = s\<lparr>heap := fst (alloc_chain (heap s) (peer_chain get n)),
                            chain := snd (alloc_chain (heap s) (peer_chain get n))\<rparr>"
    have rc: "resolve_conflicts e get neighbors s = (Inr True, s')"
      using ne by (simp add: resolve_conflicts_def r n(3) split_beta s'_def)
    have cv: "chain_view s' = peer_chain get n"
      using alloc_chain_view [of "heap s" "peer_chain get n" "[]"]
      by (simp add: chain_view_def s'_def)
    have "\<forall>n' \<in> set neighbors. peer_eligible e get ?m n' \<longrightarrow>
            peer_length get n' \<le> peer_length get n"
      using n(5) by (simp add: n(4))
    then show ?thesis
      using rc cv n(1,2) True
      by (intro exI [of _ True] exI [of _ s']) (auto simp: s'_def)
  qed
qed

text \<open>
  The loop when nothing raises. A sufficient condition for that: every peer
  answers, and no peer reports, with status 200, a length above that of the
  local chain together with an empty chain. Then \<^verbatim>\<open>resolve_conflicts\<close> returns a
  truth value, and it returns true exactly when some peer answers with status
  200, a reported length strictly above the length of the local chain and a
  chain that \<^verbatim>\<open>valid_chain\<close> accepts: an equal length or an invalid chain never
  counts. When it returns false the object is unchanged. When it returns true
  the chain of the object is the chain of such a peer whose reported length is
  greatest among them, and pool and peers are unchanged.
\<close>

theorem resolve_conflicts_longest_valid:
  assumes "\<forall>n \<in> set neighbors. peer_ok get (int (length (chain s))) n"
  shows "\<exists>b s'. resolve_conflicts e get neighbors s = (Inr b, s') \<and>
     (b \<longleftrightarrow> (\<exists>n \<in> set neighbors. peer_eligible e get (int (length (chain s))) n)) \<and>
     (\<not> b \<longrightarrow> s' = s) \<and>
     (b \<longrightarrow> (\<exists>n \<in> set neighbors. peer_eligible e get (int (length (chain s))) n \<and>
                chain_view s' = peer_chain get n \<and>
                (\<forall>n' \<in> set neighbors. peer_eligible e get (int (length (chain s))) n' \<longrightarrow>
                     peer_length get n' \<le> peer_length get n)) \<and>
            current_transactions s' = current_transactions s \<and> nodes s' = nodes s)"
  using assms by (rule resolve_conflicts_char)

text \<open>
  C10. The loop compares the length a peer reports and never counts the blocks
  it sends: a valid chain with fewer blocks than the local chain, reported with
  a length above the local one, replaces the local chain.
\<close>

theorem resolve_conflicts_reported_length_only:
  assumes "answer get n = Inr \<lparr>status_code = 200, json_length = len, json_chain = c\<rparr>"
    and "int (length (chain s)) < len"
    and "valid_chain e c = Inr True"
    and "length c < length (chain s)"
  shows "\<exists>s'. resolve_conflicts e get [n] s = (Inr True, s') \<and> chain_view s' = c \<and>
              length (chain s') < length (chain s)"
proof -
  have el: "peer_eligible e get (int (length (chain s))) n"
    using assms(1-3) by (simp add: peer_eligible_def eligible_def)
  have "c \<noteq> []" using assms(3) by (auto simp: valid_chain_def)
  then have ok: "\<forall>n' \<in> set [n]. peer_ok get (int (length (chain s))) n'"
    using assms(1) by (simp add: peer_ok_def)
  from resolve_conflicts_char [OF ok, of e] el
  obtain s' where r: "resolve_conflicts e get [n] s = (Inr True, s')"
    and cv: "chain_view s' = peer_chain get n"
    by auto
  have "peer_chain get n = c" using assms(1) by (simp add: peer_chain_def)
  then have cv': "chain_view s' = c" using cv by simp
  then have "length (chain s') = length c"
    by (metis chain_view_def length_map)
  then show ?thesis using r cv' assms(4) by simp
qed


lemma demo_genesis_valid: "valid_chain demo_env [demo_genesis] = Inr True"
  by (simp add: valid_chain_char)

lemma demo_run_chain:
  "chain (run demo_env demo_ops demo_state) =
     [\<lparr>index = 1, timestamp = 0, transactions = 0, proof' = 42, previous_hash = ''secret''\<rparr>,
      \<lparr>index = 2, timestamp = 9, transactions = 1, proof' = 1, previous_hash = ''x''\<rparr>]"
  by (simp add: run_def demo_ops_def new_transaction_state add_block_def py_or_def
      demo_state_def Let_def)

lemma demo_answers:
  "answer demo_get ''a'' = Inr \<lparr>status_code = 200, json_length = 2, json_chain = []\<rparr>"
  "answer demo_get ''b'' = Inr \<lparr>status_code = 200, json_length = 2, json_chain = [demo_genesis]\<rparr>"
  "answer demo_get ''c'' =
     Inr \<lparr>status_code = 200, json_length = 3, json_chain = [demo_genesis, demo_block2]\<rparr>"
  "answer demo_get ''d'' = Inr \<lparr>status_code = 200, json_length = 5, json_chain = [demo_genesis]\<rparr>"
  by (simp_all add: answer_def demo_get_def)

theorem resolve_conflicts_longest_valid_witness:
  "peer_ok demo_get (int (length (chain demo_state))) ''b'' \<and>
   peer_ok demo_get (int (length (chain demo_state))) ''c'' \<and>
   fst (resolve_conflicts demo_env demo_get [''b'', ''c''] demo_state) = Inr True \<and>
   chain_view (snd (resolve_conflicts demo_env demo_get [''b'', ''c''] demo_state)) =
     [demo_genesis, demo_block2] \<and>
   resolve_conflicts demo_env demo_get [''b''] (run demo_env demo_ops demo_state) =
     (Inr False, run demo_env demo_ops demo_state)"
proof -
  have l: "int (length (chain demo_state)) = 1" by (simp add: demo_state_def)
  have ok: "peer_ok demo_get 1 ''b''" "peer_ok demo_get 1 ''c''"
    by (simp_all add: peer_ok_def demo_answers)
  have el: "peer_eligible demo_env demo_get 1 ''b''" "peer_eligible demo_env demo_get 1 ''c''"
    by (simp_all add: peer_eligible_def eligible_def demo_answers demo_genesis_valid
        demo_chain_valid)
  have len: "peer_length demo_get ''b'' = 2" "peer_length demo_get ''c'' = 3"
    by (simp_all add: peer_length_def demo_answers)
  have ch: "peer_chain demo_get ''b'' = [demo_genesis]"
    "peer_chain demo_get ''c'' = [demo_genesis, demo_block2]"
    by (simp_all add: peer_chain_def demo_answers)
  from resolve_conflicts_longest_valid [of "[''b'', ''c'']" demo_get demo_state demo_env]
  obtain b s' where r: "resolve_conflicts demo_env demo_get [''b'', ''c''] demo_state = (Inr b, s')"
    and b: "b" and cv: "chain_view s' = [demo_genesis, demo_block2]"
    using ok el len ch by (auto simp: l)
  have l2: "int (length (chain (run demo_env demo_ops demo_state))) = 2"
    by (simp add: demo_run_chain)
  have ok2: "peer_ok demo_get 2 ''b''" by (simp add: peer_ok_def demo_answers)
  have nel: "\<not> peer_eligible demo_env demo_get 2 ''b''"
    by (simp add: peer_eligible_def eligible_def demo_answers)
  have "resolve_conflicts demo_env demo_get [''b''] (run demo_env demo_ops demo_state) =
     (Inr False, run demo_env demo_ops demo_state)"
    using resolve_conflicts_longest_valid
      [of "[''b'']" demo_get "run demo_env demo_ops demo_state" demo_env] ok2 nel
    by (auto simp: l2)
  then show ?thesis using r b cv ok by (simp add: l)
qed

text \<open>
  C1. \<^verbatim>\<open>resolve_conflicts\<close> is to replace the local chain, and return true,
  whenever some reachable peer sends a valid chain with a reported length above
  the local one, and to return false otherwise; its docstring promises one of
  the two truth values. The local chain has one block. Peer \<open>a\<close> answers with
  status 200, reports two blocks and sends an empty chain; peer \<open>b\<close> answers
  with status 200, reports two blocks and sends a valid chain. With \<open>a\<close> visited
  first the call of \<^verbatim>\<open>valid_chain\<close> on the empty chain raises \<^verbatim>\<open>IndexError\<close>,
  which nothing catches: the method returns neither true nor false, the chain
  of \<open>b\<close> is never looked at and the local chain stays.
\<close>

theorem resolve_conflicts_empty_chain_raises:
  "chain_view demo_state = [demo_genesis] \<and>
   answer demo_get ''a'' = Inr \<lparr>status_code = 200, json_length = 2, json_chain = []\<rparr> \<and>
   answer demo_get ''b'' = Inr \<lparr>status_code = 200, json_length = 2, json_chain = [demo_genesis]\<rparr> \<and>
   peer_eligible demo_env demo_get (int (length (chain demo_state))) ''b'' \<and>
   resolve_conflicts demo_env demo_get [''a'', ''b''] demo_state = (Inl IndexError, demo_state)"
proof -
  have "chain_view demo_state = [demo_genesis]"
    by (simp add: chain_view_def deref_def demo_state_def demo_genesis_def)
  moreover have "peer_eligible demo_env demo_get (int (length (chain demo_state))) ''b''"
    by (simp add: peer_eligible_def eligible_def demo_answers demo_genesis_valid demo_state_def)
  moreover have "resolve_conflicts demo_env demo_get [''a'', ''b''] demo_state
      = (Inl IndexError, demo_state)"
    by (simp add: resolve_conflicts_def demo_get_def demo_state_def valid_chain_def)
  ultimately show ?thesis by (simp add: demo_answers)
qed

text \<open>
  A peer that does not answer ends the loop in the same way: the exception of
  \<^verbatim>\<open>requests.get\<close> is not caught either.
\<close>

lemma resolve_conflicts_unreachable_peer:
  "resolve_conflicts demo_env demo_get [''z'', ''b''] demo_state
     = (Inl RequestException, demo_state)"
  by (simp add: resolve_conflicts_def demo_get_def demo_state_def)

theorem resolve_conflicts_reported_length_only_witness:
  "answer demo_get ''d'' = Inr \<lparr>status_code = 200, json_length = 5, json_chain = [demo_genesis]\<rparr> \<and>
   int (length (chain (run demo_env demo_ops demo_state))) < 5 \<and>
   valid_chain demo_env [demo_genesis] = Inr True \<and>
   length [demo_genesis] < length (chain (run demo_env demo_ops demo_state)) \<and>
   fst (resolve_conflicts demo_env demo_get [''d''] (run demo_env demo_ops demo_state)) = Inr True \<and>
   chain_view (snd (resolve_conflicts demo_env demo_get [''d''] (run demo_env demo_ops demo_state)))
     = [demo_genesis]"
proof -
  have a: "answer demo_get ''d'' =
      Inr \<lparr>status_code = 200, json_length = 5, json_chain = [demo_genesis]\<rparr>"
    by (rule demo_answers)
  have l: "int (length (chain (run demo_env demo_ops demo_state))) < 5"
    by (simp add: demo_run_chain)
  have s: "length [demo_genesis] < length (chain (run demo_env demo_ops demo_state))"
    by (simp add: demo_run_chain)
  from resolve_conflicts_reported_length_only [OF a l demo_genesis_valid s]
  show ?thesis using a l s demo_genesis_valid by auto
qed

end
